theory Spec2Isabelle
  imports Complex_Main
begin

section \<open>Errors raised by the Python code\<close>

text \<open>
  Every exception that the modelled functions (or the library calls they make) can raise is
  a constructor of \<open>error\<close>; a function that can raise returns \<open>error + 'a\<close>, with
  \<open>Inl\<close> for the exception. Floating-point numbers are modelled by the reals, complex
  floating-point numbers by \<open>complex\<close>: rounding is not modelled.
\<close>

datatype error =
  ImportError | IndexError | NetworkXError | ValueError | ZeroDivisionError | CircuitError

section \<open>Graphs and numpy helpers\<close>

text \<open>
  A networkx graph, seen through the two operations the code uses: the number of nodes and
  the adjacency matrix in node order. Nodes are identified with their position
  \<open>0..N-1\<close> in the node list; edges are undirected and unweighted.
\<close>

record graph =
  node_count :: nat
  edge_list :: "(nat \<times> nat) list"

definition number_of_nodes :: "graph \<Rightarrow> nat" where
  "number_of_nodes g = node_count g"

definition has_edge :: "graph \<Rightarrow> nat \<Rightarrow> nat \<Rightarrow> bool" where
  "has_edge g i j \<longleftrightarrow> (i, j) \<in> set (edge_list g) \<or> (j, i) \<in> set (edge_list g)"

text \<open>
  \<open>np.array(nx.adjacency_matrix(graph).todense(), dtype=float)\<close>: the dense
  \<open>N \<times> N\<close> matrix of 0/1 entries. networkx refuses to build the matrix of a graph
  without nodes and raises \<open>NetworkXError\<close>.
\<close>

definition adjacency_matrix :: "graph \<Rightarrow> error + real list list" where
  "adjacency_matrix g =
     (let n = number_of_nodes g in
      if n = 0 then Inl NetworkXError
      else Inr (map (\<lambda>i. map (\<lambda>j. if has_edge g i j then 1 else 0) [0..<n]) [0..<n]))"

text \<open>
  Indexing an axis of length \<open>n\<close> with a Python integer: a negative index counts from
  the end, anything outside \<open>[-n, n)\<close> raises \<open>IndexError\<close>.
\<close>

definition np_index :: "nat \<Rightarrow> int \<Rightarrow> error + nat" where
  "np_index n i =
     (if 0 \<le> i \<and> i < int n then Inr (nat i)
      else if - int n \<le> i \<and> i < 0 then Inr (nat (int n + i))
      else Inl IndexError)"

definition np_zeros :: "nat \<Rightarrow> 'a::zero list" where
  "np_zeros n = replicate n 0"

definition np_zeros2 :: "nat \<Rightarrow> nat \<Rightarrow> 'a::zero list list" where
  "np_zeros2 r c = replicate r (replicate c 0)"

definition set_entry :: "'a list list \<Rightarrow> nat \<Rightarrow> nat \<Rightarrow> 'a \<Rightarrow> 'a list list" where
  "set_entry M i j v = M[i := (M ! i)[j := v]]"

definition mat_scale :: "'a::times \<Rightarrow> 'a list list \<Rightarrow> 'a list list" where
  "mat_scale c M = map (map (\<lambda>a. c * a)) M"

definition mat_add :: "'a::plus list list \<Rightarrow> 'a list list \<Rightarrow> 'a list list" where
  "mat_add M N = map2 (map2 (+)) M N"

section \<open>Hamiltonians (continuous\_walk.py, search.py)\<close>

text \<open>
  \<open>adjacency_hamiltonian(graph)\<close> of continuous\_walk.py returns the dense adjacency
  matrix itself; it takes no coupling constant.
\<close>

definition adjacency_hamiltonian :: "graph \<Rightarrow> error + real list list" where
  "adjacency_hamiltonian g = adjacency_matrix g"

text \<open>
  \<open>build_search_hamiltonian(graph, marked_vertex, gamma)\<close> of search.py:
  the adjacency matrix is built first, then the oracle matrix is filled at
  \<open>[marked_vertex, marked_vertex]\<close>, then \<open>H = -gamma * A + oracle\<close>.
\<close>

definition build_search_hamiltonian :: "graph \<Rightarrow> int \<Rightarrow> real \<Rightarrow> error + real list list" where
  "build_search_hamiltonian g marked_vertex gamma =
     (let n = number_of_nodes g in
      case adjacency_matrix g of
        Inl e \<Rightarrow> Inl e
      | Inr A \<Rightarrow>
          (case np_index n marked_vertex of
             Inl e \<Rightarrow> Inl e
           | Inr w \<Rightarrow>
               (let oracle = set_entry (np_zeros2 n n) w w 1
                in Inr (mat_add (mat_scale (- gamma) A) oracle))))"

section \<open>Module loading (search.py, graph\_utils.py)\<close>

text \<open>
  The names bound at the top level of a module, in source order: its imports and its
  function definitions. \<open>from .m import x\<close> succeeds exactly when \<open>x\<close> is one of
  the names of \<open>m\<close> (neither module is a package, so there is no submodule to fall
  back on), and raises \<open>ImportError\<close> otherwise.
\<close>

definition graph_utils_names :: "string list" where
  "graph_utils_names =
     [''nx'', ''np'', ''build_complete_graph'', ''build_hypercube'', ''build_grid_2d'',
      ''build_cycle'', ''build_star'', ''classical_hitting_time'', ''get_graph_builders'']"

definition continuous_walk_names :: "string list" where
  "continuous_walk_names =
     [''np'', ''expm'', ''nx'', ''adjacency_hamiltonian'', ''evolve_continuous_walk'',
      ''sweep_evolution'']"

definition import_from :: "string list \<Rightarrow> string \<Rightarrow> error + unit" where
  "import_from module_names name =
     (if name \<in> set module_names then Inr () else Inl ImportError)"

text \<open>
  Executing the top level of search.py: after the library imports, line 8 is
  \<open>from .graph_utils import adjacency_hamiltonian\<close>; the function definitions that
  follow bind names only and cannot fail.
\<close>

definition load_search_module :: "error + unit" where
  "load_search_module = import_from graph_utils_names ''adjacency_hamiltonian''"

text \<open>
  A call \<open>search.f(...)\<close> made by a client: the module is loaded first, and the body of
  \<open>f\<close> runs only if loading succeeded.
\<close>

definition via_search_module :: "(error + 'a) \<Rightarrow> error + 'a" where
  "via_search_module call =
     (case load_search_module of Inl e \<Rightarrow> Inl e | Inr _ \<Rightarrow> call)"

section \<open>Complex matrices and the matrix exponential\<close>

definition identity :: "nat \<Rightarrow> complex list list" where
  "identity n = map (\<lambda>i. map (\<lambda>j. if i = j then 1 else 0) [0..<n]) [0..<n]"

definition mat_mul :: "complex list list \<Rightarrow> complex list list \<Rightarrow> complex list list" where
  "mat_mul M N =
     (let n = length M in
      map (\<lambda>i. map (\<lambda>j. \<Sum>k<n. M ! i ! k * N ! k ! j) [0..<n]) [0..<n])"

fun mat_pow :: "complex list list \<Rightarrow> nat \<Rightarrow> complex list list" where
  "mat_pow M 0 = identity (length M)"
| "mat_pow M (Suc k) = mat_mul M (mat_pow M k)"

text \<open>
  \<open>scipy.linalg.expm\<close> on a square matrix: the matrix exponential, here the exact
  value of the power series \<open>\<Sum>k. M^k / k!\<close>, entry by entry.
\<close>

definition expm :: "complex list list \<Rightarrow> complex list list" where
  "expm M =
     (let n = length M in
      map (\<lambda>i. map (\<lambda>j. \<Sum>k. mat_pow M k ! i ! j / fact k) [0..<n]) [0..<n])"

text \<open>\<open>U @ psi\<close> for a matrix and a vector.\<close>

definition mat_vec :: "complex list list \<Rightarrow> complex list \<Rightarrow> complex list" where
  "mat_vec U psi = map (\<lambda>row. \<Sum>k<length psi. row ! k * psi ! k) U"

section \<open>Continuous-time walk (continuous\_walk.py)\<close>

record evolution =
  probabilities :: "real list"
  state :: "complex list"

text \<open>
  \<open>evolve_continuous_walk(graph, initial_node, time, gamma)\<close>. The argument of
  \<open>expm\<close> is \<open>-1j * gamma * A * time\<close>, evaluated left to right.
\<close>

definition evolve_continuous_walk :: "graph \<Rightarrow> int \<Rightarrow> real \<Rightarrow> real \<Rightarrow> error + evolution" where
  "evolve_continuous_walk g initial_node time gamma =
     (let n = number_of_nodes g in
      case adjacency_hamiltonian g of
        Inl e \<Rightarrow> Inl e
      | Inr A \<Rightarrow>
          (case np_index n initial_node of
             Inl e \<Rightarrow> Inl e
           | Inr k \<Rightarrow>
               (let psi_0 = (np_zeros n)[k := 1];
                    U = expm (map (map (\<lambda>a. - \<i> * of_real gamma * of_real a * of_real time)) A);
                    psi_t = mat_vec U psi_0
                in Inr \<lparr>probabilities = map (\<lambda>z. (cmod z)\<^sup>2) psi_t, state = psi_t\<rparr>)))"

record sweep =
  times :: "real list"
  prob_matrix :: "real list list"

text \<open>
  The loop of \<open>sweep_evolution\<close>: row \<open>i\<close> of the preallocated matrix is overwritten
  with the probabilities at the \<open>i\<close>-th time; an exception of the single-time evolution
  leaves the loop.
\<close>

fun sweep_loop ::
  "graph \<Rightarrow> int \<Rightarrow> real \<Rightarrow> real list list \<Rightarrow> nat \<Rightarrow> real list \<Rightarrow> error + real list list" where
  "sweep_loop g initial_node gamma pm i [] = Inr pm"
| "sweep_loop g initial_node gamma pm i (t # ts) =
     (case evolve_continuous_walk g initial_node t gamma of
        Inl e \<Rightarrow> Inl e
      | Inr result \<Rightarrow> sweep_loop g initial_node gamma (pm[i := probabilities result]) (Suc i) ts)"

definition sweep_evolution :: "graph \<Rightarrow> int \<Rightarrow> real list \<Rightarrow> real \<Rightarrow> error + sweep" where
  "sweep_evolution g initial_node time_range gamma =
     (let n = number_of_nodes g;
          prob_matrix = np_zeros2 (length time_range) n
      in case sweep_loop g initial_node gamma prob_matrix 0 time_range of
           Inl e \<Rightarrow> Inl e
         | Inr pm \<Rightarrow> Inr \<lparr>times = time_range, prob_matrix = pm\<rparr>)"

section \<open>Spectral search (search.py)\<close>

text \<open>
  \<open>np.linspace(start, stop, num)\<close>: \<open>num\<close> evenly spaced samples, the last one set to
  \<open>stop\<close> when there are at least two; a negative \<open>num\<close> raises \<open>ValueError\<close>.
\<close>

definition linspace :: "real \<Rightarrow> real \<Rightarrow> int \<Rightarrow> error + real list" where
  "linspace start stop num =
     (if num < 0 then Inl ValueError
      else
        (let n = nat num in
         if 1 < n
         then Inr ((map (\<lambda>i. start + real i * ((stop - start) / real (n - 1))) [0..<n])
                     [n - 1 := stop])
         else Inr (map (\<lambda>i. start + real i * (stop - start)) [0..<n])))"

text \<open>
  \<open>np.argmax\<close>: the first index holding the largest value; \<open>ValueError\<close> on an empty
  array.
\<close>

fun argmax_from :: "nat \<Rightarrow> real \<Rightarrow> nat \<Rightarrow> real list \<Rightarrow> nat" where
  "argmax_from best_i best_v i [] = best_i"
| "argmax_from best_i best_v i (x # xs) =
     (if best_v < x then argmax_from i x (Suc i) xs
      else argmax_from best_i best_v (Suc i) xs)"

definition np_argmax :: "real list \<Rightarrow> error + nat" where
  "np_argmax xs = (case xs of [] \<Rightarrow> Inl ValueError | x # rest \<Rightarrow> Inr (argmax_from 0 x 1 rest))"

record search_result =
  optimal_time :: real
  max_probability :: real
  search_times :: "real list"
  success_probs :: "real list"

text \<open>
  The body of the loop of \<open>search_continuous_walk\<close> at one sampled time:
  \<open>U = expm(-1j * H * t)\<close>, \<open>psi_t = U @ psi_0\<close>, \<open>|psi_t[w]|\<^sup>2\<close>.
\<close>

definition success_probability :: "real list list \<Rightarrow> complex list \<Rightarrow> nat \<Rightarrow> real \<Rightarrow> real" where
  "success_probability H psi_0 w t =
     (let U = expm (map (map (\<lambda>h. - \<i> * of_real h * of_real t)) H);
          psi_t = mat_vec U psi_0
      in (cmod (psi_t ! w))\<^sup>2)"

text \<open>The initial state of the search, \<open>np.ones(n, dtype=complex) / np.sqrt(n)\<close>.\<close>

definition uniform_superposition :: "nat \<Rightarrow> complex list" where
  "uniform_superposition n = map (\<lambda>x. x / of_real (sqrt (real n))) (replicate n 1)"

text \<open>
  \<open>search_continuous_walk(graph, marked_vertex, gamma, time, n_time_steps)\<close>; \<open>None\<close>
  for \<open>gamma\<close> or \<open>time\<close> selects the default. The result field \<open>search_times\<close> is
  the dictionary key \<open>'times'\<close>. The index \<open>marked_vertex\<close> into \<open>psi_t\<close> is
  resolved as in \<open>build_search_hamiltonian\<close>, which has accepted it before the loop
  starts.
\<close>

definition search_continuous_walk ::
  "graph \<Rightarrow> int \<Rightarrow> real option \<Rightarrow> real option \<Rightarrow> int \<Rightarrow> error + search_result" where
  "search_continuous_walk g marked_vertex gamma time n_time_steps =
     (let n = number_of_nodes g in
      case (case gamma of
              None \<Rightarrow> if n = 0 then Inl ZeroDivisionError else Inr (1 / real n)
            | Some c \<Rightarrow> Inr c) of
        Inl e \<Rightarrow> Inl e
      | Inr gamma' \<Rightarrow>
          (let time' = (case time of None \<Rightarrow> pi / 2 * sqrt (real n) | Some T \<Rightarrow> T) in
           case linspace 0 time' n_time_steps of
             Inl e \<Rightarrow> Inl e
           | Inr ts \<Rightarrow>
               (let psi_0 = uniform_superposition n in
                case build_search_hamiltonian g marked_vertex gamma' of
                  Inl e \<Rightarrow> Inl e
                | Inr H \<Rightarrow>
                    (case np_index n marked_vertex of
                       Inl e \<Rightarrow> Inl e
                     | Inr w \<Rightarrow>
                         (let probs = map (success_probability H psi_0 w) ts in
                          case np_argmax probs of
                            Inl e \<Rightarrow> Inl e
                          | Inr optimal_idx \<Rightarrow>
                              Inr \<lparr>optimal_time = ts ! optimal_idx,
                                   max_probability = probs ! optimal_idx,
                                   search_times = ts,
                                   success_probs = probs\<rparr>)))))"

record benchmark =
  n_nodes :: "nat list"
  optimal_times :: "real list"
  max_probs :: "real list"

text \<open>
  \<open>benchmark_search(graph_builder, node_counts, marked_vertex, n_time_steps)\<close>: one
  search per node count with the default \<open>gamma\<close> and \<open>time\<close>; the printing is not
  modelled.
\<close>

fun benchmark_loop ::
  "(nat \<Rightarrow> graph) \<Rightarrow> int \<Rightarrow> int \<Rightarrow> nat list \<Rightarrow> error + (real list \<times> real list)" where
  "benchmark_loop graph_builder marked_vertex n_time_steps [] = Inr ([], [])"
| "benchmark_loop graph_builder marked_vertex n_time_steps (n # ns) =
     (case search_continuous_walk (graph_builder n) marked_vertex None None n_time_steps of
        Inl e \<Rightarrow> Inl e
      | Inr result \<Rightarrow>
          (case benchmark_loop graph_builder marked_vertex n_time_steps ns of
             Inl e \<Rightarrow> Inl e
           | Inr (ots, mps) \<Rightarrow>
               Inr (optimal_time result # ots, max_probability result # mps)))"

definition benchmark_search ::
  "(nat \<Rightarrow> graph) \<Rightarrow> nat list \<Rightarrow> int \<Rightarrow> int \<Rightarrow> error + benchmark" where
  "benchmark_search graph_builder node_counts marked_vertex n_time_steps =
     (case benchmark_loop graph_builder marked_vertex n_time_steps node_counts of
        Inl e \<Rightarrow> Inl e
      | Inr (ots, mps) \<Rightarrow>
          Inr \<lparr>n_nodes = node_counts, optimal_times = ots, max_probs = mps\<rparr>)"

section \<open>Coined walk circuit (coined\_walk.py)\<close>

text \<open>
  A circuit is the sizes of its quantum and classical registers and the list of
  instructions appended to it, in order.
\<close>

datatype gate =
  HGate nat
| UnitaryGate "real list list" "nat list" string
| CXGate nat nat
| MCXGate "nat list" nat
| Measure nat nat

record circuit =
  num_qubits :: nat
  num_clbits :: nat
  data :: "gate list"

definition grover_coin :: "nat \<Rightarrow> real list list" where
  "grover_coin n_coin_qubits =
     (let dim = 2 ^ n_coin_qubits in
      map (\<lambda>i. map (\<lambda>j. 2 / real dim * 1 - (if i = j then 1 else 0)) [0..<dim]) [0..<dim])"

definition hadamard_coin :: "real list list" where
  "hadamard_coin = map (map (\<lambda>x. x / sqrt 2)) [[1, 1], [1, - 1]]"

text \<open>Decimal digits of a number, for the label \<open>f'C{step}'\<close>.\<close>

fun str_nat :: "nat \<Rightarrow> string" where
  "str_nat n =
     (if n < 10 then [char_of (48 + n)]
      else str_nat (n div 10) @ [char_of (48 + n mod 10)])"

text \<open>
  One iteration of the step loop: the coin operator, then the controlled increment.
  \<open>coin_qubits[0]\<close> and \<open>pos_qubits[0]\<close> raise \<open>IndexError\<close> on an empty list.
\<close>

definition walk_step :: "string \<Rightarrow> nat \<Rightarrow> nat list \<Rightarrow> nat list \<Rightarrow> nat \<Rightarrow> error + gate list" where
  "walk_step coin_type n_coin coin_qubits pos_qubits step =
     (case (if coin_type = ''hadamard'' \<and> n_coin = 1
            then (case coin_qubits of [] \<Rightarrow> Inl IndexError | c # _ \<Rightarrow> Inr [HGate c])
            else Inr [UnitaryGate (grover_coin n_coin) coin_qubits (''C'' @ str_nat step)]) of
        Inl e \<Rightarrow> Inl e
      | Inr coin \<Rightarrow>
          (case coin_qubits of
             [] \<Rightarrow> Inl IndexError
           | c # _ \<Rightarrow>
               (case pos_qubits of
                  [] \<Rightarrow> Inl IndexError
                | p # _ \<Rightarrow>
                    Inr (coin @ [CXGate c p] @
                         map (\<lambda>i. MCXGate (take 1 coin_qubits @ take i pos_qubits) (pos_qubits ! i))
                           [1..<length pos_qubits]))))"

fun walk_steps :: "string \<Rightarrow> nat \<Rightarrow> nat list \<Rightarrow> nat list \<Rightarrow> nat list \<Rightarrow> error + gate list" where
  "walk_steps coin_type n_coin coin_qubits pos_qubits [] = Inr []"
| "walk_steps coin_type n_coin coin_qubits pos_qubits (step # steps) =
     (case walk_step coin_type n_coin coin_qubits pos_qubits step of
        Inl e \<Rightarrow> Inl e
      | Inr gs \<Rightarrow>
          (case walk_steps coin_type n_coin coin_qubits pos_qubits steps of
             Inl e \<Rightarrow> Inl e
           | Inr rest \<Rightarrow> Inr (gs @ rest)))"

text \<open>
  \<open>build_coined_walk_circuit(n_position_qubits, n_steps, coin_type)\<close>. The only test
  on \<open>coin_type\<close> is the comparison with \<open>'hadamard'\<close>. \<open>QuantumCircuit\<close> rejects a
  negative register size with \<open>CircuitError\<close>; \<open>range(n_steps)\<close> is empty for a
  negative \<open>n_steps\<close>.
\<close>

definition build_coined_walk_circuit :: "int \<Rightarrow> int \<Rightarrow> string \<Rightarrow> error + circuit" where
  "build_coined_walk_circuit n_position_qubits n_steps coin_type =
     (let n_coin = (if coin_type = ''hadamard'' then 1 else n_position_qubits);
          n_total = n_position_qubits + n_coin
      in if n_total < 0 \<or> n_position_qubits < 0 then Inl CircuitError
         else
           (let coin_qubits = [0..<nat n_coin];
                pos_qubits = [nat n_coin..<nat n_total]
            in case walk_steps coin_type (nat n_coin) coin_qubits pos_qubits [0..<nat n_steps] of
                 Inl e \<Rightarrow> Inl e
               | Inr body \<Rightarrow>
                   Inr \<lparr>num_qubits = nat n_total,
                        num_clbits = nat n_position_qubits,
                        data = map HGate coin_qubits @ body @
                               map (\<lambda>(i, q). Measure q i) (enumerate 0 pos_qubits)\<rparr>))"

section \<open>Double-precision arithmetic\<close>

text \<open>
  numpy computes in IEEE binary64. \<open>rne\<close> rounds a real to the nearest integer, a tie
  to the even one; \<open>fl x\<close> is the double nearest to the real \<open>x\<close>: a significand of
  53 bits, rounded to nearest, ties to even. The exponent range is not bounded, so
  overflow and subnormal numbers are not modelled.
\<close>

definition rne :: "real \<Rightarrow> int" where
  "rne x =
     (let f = \<lfloor>x\<rfloor>; d = x - of_int f
      in if d < 1 / 2 then f else if 1 / 2 < d then f + 1 else if even f then f else f + 1)"

definition fl :: "real \<Rightarrow> real" where
  "fl x =
     (let e = \<lfloor>log 2 \<bar>x\<bar>\<rfloor>
      in of_int (rne (x / (2::real) powr (of_int e - 52))) * (2::real) powr (of_int e - 52))"

text \<open>
  Complex addition and multiplication of two doubles per component, as numpy's
  \<open>complex128\<close> loops compute them, and \<open>U @ psi\<close> with the products of a row
  accumulated in index order.
\<close>

definition cadd_double :: "complex \<Rightarrow> complex \<Rightarrow> complex" where
  "cadd_double a b = Complex (fl (Re a + Re b)) (fl (Im a + Im b))"

definition cmul_double :: "complex \<Rightarrow> complex \<Rightarrow> complex" where
  "cmul_double a b =
     Complex (fl (fl (Re a * Re b) - fl (Im a * Im b))) (fl (fl (Re a * Im b) + fl (Im a * Re b)))"

definition mat_vec_double :: "complex list list \<Rightarrow> complex list \<Rightarrow> complex list" where
  "mat_vec_double U psi =
     map (\<lambda>row. foldl (\<lambda>acc k. cadd_double acc (cmul_double (row ! k) (psi ! k))) 0
                   [0..<length psi]) U"

text \<open>\<open>np.abs\<close> of a complex double: the correctly rounded \<open>hypot\<close> of its parts.\<close>

definition abs_double :: "complex \<Rightarrow> real" where
  "abs_double z = fl (sqrt ((Re z)\<^sup>2 + (Im z)\<^sup>2))"

text \<open>
  \<open>np.linspace\<close> in doubles: \<open>delta = stop - start\<close>, \<open>step = delta / (num - 1)\<close>,
  the samples \<open>i * step + start\<close>, each operation rounded, the last sample set to
  \<open>stop\<close>; with a single sample, \<open>0 * delta + start\<close>.
\<close>

definition linspace_double :: "real \<Rightarrow> real \<Rightarrow> int \<Rightarrow> error + real list" where
  "linspace_double start stop num =
     (if num < 0 then Inl ValueError
      else
        (let n = nat num; delta = fl (stop - start) in
         if 1 < n
         then Inr ((map (\<lambda>i. fl (fl (real i * fl (delta / real (n - 1))) + start)) [0..<n])
                     [n - 1 := stop])
         else Inr (map (\<lambda>i. fl (fl (real i * delta) + start)) [0..<n])))"

text \<open>
  \<open>np.ones(n, dtype=complex) / np.sqrt(n)\<close> in doubles: \<open>n\<close> is converted to a
  double, the square root and the quotient are rounded.
\<close>

definition uniform_superposition_double :: "nat \<Rightarrow> complex list" where
  "uniform_superposition_double n =
     replicate n (Complex (fl (1 / fl (sqrt (fl (real n))))) 0)"

text \<open>\<open>build_search_hamiltonian\<close> with the product and the sum rounded.\<close>

definition build_search_hamiltonian_double ::
  "graph \<Rightarrow> int \<Rightarrow> real \<Rightarrow> error + real list list" where
  "build_search_hamiltonian_double g marked_vertex gamma =
     (let n = number_of_nodes g in
      case adjacency_matrix g of
        Inl e \<Rightarrow> Inl e
      | Inr A \<Rightarrow>
          (case np_index n marked_vertex of
             Inl e \<Rightarrow> Inl e
           | Inr w \<Rightarrow>
               (let oracle = set_entry (np_zeros2 n n) w w 1
                in Inr (map2 (map2 (\<lambda>a b. fl (a + b)))
                          (map (map (\<lambda>a. fl (- gamma * a))) A) oracle))))"

text \<open>
  The loop body of \<open>search_continuous_walk\<close> in doubles. \<open>-1j * H * t\<close> has real
  part \<open>0\<close> and the rounded product \<open>-h * t\<close> as imaginary part; the square of the
  modulus is the rounded product of the modulus with itself. \<open>E\<close> stands for
  \<open>scipy.linalg.expm\<close> as it computes in double precision: library code, taken as a
  parameter.
\<close>

definition success_probability_double ::
  "(complex list list \<Rightarrow> complex list list) \<Rightarrow> real list list \<Rightarrow> complex list \<Rightarrow> nat \<Rightarrow> real \<Rightarrow> real" where
  "success_probability_double E H psi_0 w t =
     (let U = E (map (map (\<lambda>h. Complex 0 (fl (- h * t)))) H);
          psi_t = mat_vec_double U psi_0;
          a = abs_double (psi_t ! w)
      in fl (a * a))"

text \<open>
  \<open>search_continuous_walk\<close> in doubles: the control flow and the errors are those of
  \<open>search_continuous_walk\<close> above, the default \<open>gamma\<close> is the rounded
  \<open>1.0 / n\<close>, the default \<open>time\<close> the rounded \<open>np.pi / 2 * np.sqrt(n)\<close>.
\<close>

definition search_continuous_walk_double ::
  "(complex list list \<Rightarrow> complex list list) \<Rightarrow>
   graph \<Rightarrow> int \<Rightarrow> real option \<Rightarrow> real option \<Rightarrow> int \<Rightarrow> error + search_result" where
  "search_continuous_walk_double E g marked_vertex gamma time n_time_steps =
     (let n = number_of_nodes g in
      case (case gamma of
              None \<Rightarrow> if n = 0 then Inl ZeroDivisionError else Inr (fl (1 / fl (real n)))
            | Some c \<Rightarrow> Inr c) of
        Inl e \<Rightarrow> Inl e
      | Inr gamma' \<Rightarrow>
          (let time' = (case time of
                          None \<Rightarrow> fl (fl (fl pi / 2) * fl (sqrt (fl (real n))))
                        | Some T \<Rightarrow> T) in
           case linspace_double 0 time' n_time_steps of
             Inl e \<Rightarrow> Inl e
           | Inr ts \<Rightarrow>
               (let psi_0 = uniform_superposition_double n in
                case build_search_hamiltonian_double g marked_vertex gamma' of
                  Inl e \<Rightarrow> Inl e
                | Inr H \<Rightarrow>
                    (case np_index n marked_vertex of
                       Inl e \<Rightarrow> Inl e
                     | Inr w \<Rightarrow>
                         (let probs = map (success_probability_double E H psi_0 w) ts in
                          case np_argmax probs of
                            Inl e \<Rightarrow> Inl e
                          | Inr optimal_idx \<Rightarrow>
                              Inr \<lparr>optimal_time = ts ! optimal_idx,
                                   max_probability = probs ! optimal_idx,
                                   search_times = ts,
                                   success_probs = probs\<rparr>)))))"

section \<open>Concrete inputs\<close>

text \<open>The complete graph on two nodes.\<close>

definition K2 :: graph where
  "K2 = \<lparr>node_count = 2, edge_list = [(0, 1)]\<rparr>"

section \<open>Basic facts about the adjacency matrix\<close>

lemma upt_2: "[0..<2] = [0, Suc 0]"
  by (simp add: upt_rec)

lemma number_of_nodes_K2: "number_of_nodes K2 = 2"
  by (simp add: K2_def number_of_nodes_def)

lemma adjacency_matrix_K2: "adjacency_matrix K2 = Inr [[0, 1], [1, 0]]"
  by (simp add: adjacency_matrix_def K2_def number_of_nodes_def has_edge_def upt_2)

lemma length_adjacency_matrix:
  "adjacency_matrix g = Inr A \<Longrightarrow> length A = number_of_nodes g"
  by (auto simp add: adjacency_matrix_def Let_def split: if_splits)

lemma adjacency_matrix_square:
  "adjacency_matrix g = Inr A \<Longrightarrow> i < length A \<Longrightarrow> length (A ! i) = length A"
  by (auto simp add: adjacency_matrix_def Let_def split: if_splits)

lemma adjacency_matrix_returns:
  "0 < number_of_nodes g \<Longrightarrow> \<exists>A. adjacency_matrix g = Inr A"
  by (simp add: adjacency_matrix_def Let_def)

section \<open>Loading the search module\<close>

text \<open>
  Claim C1. Loading search.py fails: the name \<open>adjacency_hamiltonian\<close> that it
  imports from graph\_utils is not among the names graph\_utils defines (it is a name of
  continuous\_walk only), so the import raises \<open>ImportError\<close>, and every call of
  \<open>build_search_hamiltonian\<close>, \<open>search_continuous_walk\<close> or
  \<open>benchmark_search\<close> made through the module ends in that error, whatever the
  arguments.
\<close>

theorem search_module_load_fails:
  "''adjacency_hamiltonian'' \<notin> set graph_utils_names
   \<and> ''adjacency_hamiltonian'' \<in> set continuous_walk_names
   \<and> load_search_module = Inl ImportError
   \<and> via_search_module (build_search_hamiltonian g w gamma) = Inl ImportError
   \<and> via_search_module (search_continuous_walk g w gamma_opt time_opt n_time_steps)
       = Inl ImportError
   \<and> via_search_module (benchmark_search graph_builder node_counts w n_time_steps)
       = Inl ImportError"
  by (simp add: via_search_module_def load_search_module_def import_from_def
      graph_utils_names_def continuous_walk_names_def)

section \<open>The Hamiltonian builders\<close>

text \<open>
  Claim C2 says that \<open>adjacency_hamiltonian\<close> returns \<open>-\<gamma>\<cdot>A\<close>, that is
  \<open>-A\<close> for the default \<open>\<gamma> = 1\<close>. On the complete graph on two nodes the
  function returns the adjacency matrix \<open>A\<close> itself, whose off-diagonal entries are
  \<open>1\<close>, whereas \<open>-1\<cdot>A\<close> has \<open>-1\<close> there.
\<close>

theorem adjacency_hamiltonian_K2_is_unscaled:
  "adjacency_hamiltonian K2 = Inr [[0, 1], [1, 0]]
   \<and> mat_scale (- 1) [[0, 1], [1, 0]] = [[0, - 1], [- 1, 0 :: real]]
   \<and> adjacency_hamiltonian K2 \<noteq> Inr (mat_scale (- 1) [[0, 1], [1, 0]])"
  by (simp add: adjacency_hamiltonian_def adjacency_matrix_K2 mat_scale_def)

text \<open>
  For every graph the function is the adjacency matrix, with no sign and no coupling
  constant applied.
\<close>

lemma adjacency_hamiltonian_eq_adjacency_matrix:
  "adjacency_hamiltonian g = adjacency_matrix g"
  by (simp add: adjacency_hamiltonian_def)

text \<open>
  Claim C3, as stated, fails: a negative index is not always rejected. On the complete
  graph on two nodes the index \<open>-1\<close>, which lies outside \<open>[0, 2)\<close>, is accepted
  and marks the last vertex.
\<close>

theorem build_search_hamiltonian_accepts_negative_index:
  "\<not> (0 \<le> (- 1 :: int) \<and> (- 1 :: int) < int (number_of_nodes K2))
   \<and> build_search_hamiltonian K2 (- 1) 1 = Inr [[0, - 1], [- 1, 1]]"
  by (simp add: build_search_hamiltonian_def adjacency_matrix_K2 np_index_def
      number_of_nodes_K2 set_entry_def np_zeros2_def mat_add_def mat_scale_def numeral_2_eq_2)

text \<open>
  Claim C3, amended. On a graph with \<open>N \<ge> 1\<close> nodes, \<open>build_search_hamiltonian\<close>
  fails with \<open>IndexError\<close> exactly when the marked index is outside \<open>[-N, N)\<close>;
  for every index inside \<open>[-N, N)\<close>, so in particular inside \<open>[0, N)\<close>, it returns
  a matrix, and a negative index \<open>w\<close> in \<open>[-N, 0)\<close> gives the same result as the
  index \<open>N + w\<close>. (The function is a HOL function of its three arguments: it has no
  effects.)
\<close>

theorem build_search_hamiltonian_index_error:
  assumes "0 < number_of_nodes g"
  shows "(build_search_hamiltonian g w gamma = Inl IndexError \<longleftrightarrow>
            w < - int (number_of_nodes g) \<or> int (number_of_nodes g) \<le> w)
       \<and> (- int (number_of_nodes g) \<le> w \<and> w < int (number_of_nodes g) \<longrightarrow>
            (\<exists>Hm. build_search_hamiltonian g w gamma = Inr Hm))
       \<and> (- int (number_of_nodes g) \<le> w \<and> w < 0 \<longrightarrow>
            build_search_hamiltonian g w gamma =
            build_search_hamiltonian g (int (number_of_nodes g) + w) gamma)"
  using assms
  by (auto simp add: build_search_hamiltonian_def adjacency_matrix_def np_index_def Let_def)

theorem build_search_hamiltonian_index_error_witness:
  "0 < number_of_nodes K2
   \<and> build_search_hamiltonian K2 2 1 = Inl IndexError
   \<and> build_search_hamiltonian K2 (- 3) 1 = Inl IndexError
   \<and> (\<exists>Hm. build_search_hamiltonian K2 0 1 = Inr Hm)
   \<and> build_search_hamiltonian K2 (- 2) 1 = build_search_hamiltonian K2 0 1"
proof -
  have h: "0 < number_of_nodes K2"
    by (simp add: number_of_nodes_K2)
  show ?thesis
    using h
      build_search_hamiltonian_index_error [OF h, where w = 2 and gamma = 1]
      build_search_hamiltonian_index_error [OF h, where w = "- 3" and gamma = 1]
      build_search_hamiltonian_index_error [OF h, where w = 0 and gamma = 1]
      build_search_hamiltonian_index_error [OF h, where w = "- 2" and gamma = 1]
    by (simp add: number_of_nodes_K2)
qed

text \<open>
  Claim C5 says that the search Hamiltonian and the plain adjacency Hamiltonian differ
  only in the diagonal entry of the marked vertex. On the complete graph on two nodes
  with marked vertex \<open>0\<close> and \<open>\<gamma> = 1\<close> the two matrices differ in all four entries
  but \<open>(1, 1)\<close>: the off-diagonal entries are \<open>-1\<close> in one and \<open>1\<close> in the other.
\<close>

theorem search_hamiltonian_K2_differs_off_diagonal:
  "build_search_hamiltonian K2 0 1 = Inr [[1, - 1], [- 1, 0]]
   \<and> adjacency_hamiltonian K2 = Inr [[0, 1], [1, 0]]"
  by (simp add: build_search_hamiltonian_def adjacency_hamiltonian_def adjacency_matrix_K2
      np_index_def number_of_nodes_K2 set_entry_def np_zeros2_def mat_add_def mat_scale_def
      numeral_2_eq_2)

text \<open>
  What the code does compute: entry by entry the search Hamiltonian is \<open>-\<gamma>\<cdot>A\<close>
  plus \<open>1\<close> at the diagonal entry of the marked vertex, so it is against the scaled
  matrix \<open>-\<gamma>\<cdot>A\<close>, not against \<open>adjacency_hamiltonian\<close>, that only this entry
  differs.
\<close>

lemma build_search_hamiltonian_nth:
  assumes Hm: "build_search_hamiltonian g w gamma = Inr Hm"
    and A: "adjacency_matrix g = Inr A"
    and k: "np_index (number_of_nodes g) w = Inr k"
    and i: "i < number_of_nodes g" and j: "j < number_of_nodes g"
  shows "Hm ! i ! j = - gamma * A ! i ! j + (if i = k \<and> j = k then 1 else 0)"
proof -
  let ?n = "number_of_nodes g"
  let ?proj = "set_entry (np_zeros2 ?n ?n) k k (1::real)"
  have Hm_eq: "Hm = mat_add (mat_scale (- gamma) A) ?proj"
    using Hm A k by (simp add: build_search_hamiltonian_def Let_def)
  have len: "length A = ?n"
    using A by (rule length_adjacency_matrix)
  have row: "length (A ! i) = ?n"
    using adjacency_matrix_square [OF A, of i] len i by simp
  have kn: "k < ?n"
    using k by (auto simp add: np_index_def split: if_splits)
  have orow: "length (?proj ! i) = ?n"
    using i by (cases "i = k") (simp_all add: set_entry_def np_zeros2_def)
  have oij: "?proj ! i ! j = (if i = k \<and> j = k then 1 else 0)"
    using i j kn by (cases "i = k"; cases "j = k") (simp_all add: set_entry_def np_zeros2_def)
  have "Hm ! i ! j = - gamma * A ! i ! j + ?proj ! i ! j"
    using i j len row orow
    by (simp add: Hm_eq mat_add_def mat_scale_def set_entry_def np_zeros2_def)
  with oij show ?thesis by simp
qed

section \<open>The coined walk circuit\<close>

lemma walk_step_cons:
  assumes "coin_qubits \<noteq> []" "pos_qubits \<noteq> []"
  shows "\<exists>gs. walk_step coin_type n_coin coin_qubits pos_qubits step = Inr gs"
  using assms by (cases coin_qubits; cases pos_qubits) (simp_all add: walk_step_def)

lemma walk_steps_cons:
  assumes "coin_qubits \<noteq> []" "pos_qubits \<noteq> []"
  shows "\<exists>gs. walk_steps coin_type n_coin coin_qubits pos_qubits steps = Inr gs"
proof (induction steps)
  case Nil
  show ?case by simp
next
  case (Cons k ks)
  from walk_step_cons [OF assms] obtain a where
    "walk_step coin_type n_coin coin_qubits pos_qubits k = Inr a" by blast
  with Cons show ?case by auto
qed

lemma build_coined_walk_circuit_returns:
  assumes "1 \<le> n"
  shows "\<exists>c. build_coined_walk_circuit n s coin_type = Inr c"
proof -
  let ?nc = "if coin_type = ''hadamard'' then 1 else n"
  have a: "[0..<nat ?nc] \<noteq> []"
    using assms by simp
  have b: "[nat ?nc..<nat (n + ?nc)] \<noteq> []"
    using assms by (auto simp add: not_le)
  from walk_steps_cons [OF a b] obtain body where
    "walk_steps coin_type (nat ?nc) [0..<nat ?nc] [nat ?nc..<nat (n + ?nc)] [0..<nat s] = Inr body"
    by blast
  then show ?thesis
    using assms by (simp add: build_coined_walk_circuit_def Let_def)
qed

lemma walk_steps_not_hadamard:
  assumes "coin_type \<noteq> ''hadamard''"
  shows "walk_steps coin_type nc cq pq ks = walk_steps ''grover'' nc cq pq ks"
proof -
  have step: "walk_step coin_type nc cq pq k = walk_step ''grover'' nc cq pq k" for k
    using assms by (simp add: walk_step_def)
  show ?thesis
    by (induction ks) (simp_all add: step cong: sum.case_cong)
qed

text \<open>
  Claim C4, as stated, fails: the unsupported coin type \<open>'qft'\<close> raises nothing. With
  one position qubit and one step the function returns a circuit, the one with the
  Grover coin on a single coin qubit.
\<close>

theorem build_coined_walk_circuit_qft_builds:
  "build_coined_walk_circuit 1 1 ''qft'' =
     Inr \<lparr>num_qubits = 2, num_clbits = 1,
          data = [HGate 0, UnitaryGate [[0, 1], [1, 0]] [0] ''C0'', CXGate 0 1, Measure 1 0]\<rparr>"
  by code_simp

text \<open>
  Claim C4, amended. For every \<open>coin_type\<close> string other than \<open>'hadamard'\<close>, so for
  every string that is neither \<open>'hadamard'\<close> nor \<open>'grover'\<close>,
  \<open>build_coined_walk_circuit\<close> reports no configuration error: it returns exactly what
  it returns for \<open>'grover'\<close>, and with at least one position qubit that is a circuit.
\<close>

theorem build_coined_walk_circuit_unsupported_coin:
  assumes "coin_type \<noteq> ''hadamard''"
  shows "build_coined_walk_circuit n s coin_type = build_coined_walk_circuit n s ''grover''
       \<and> (1 \<le> n \<longrightarrow> (\<exists>c. build_coined_walk_circuit n s coin_type = Inr c))"
proof
  show "build_coined_walk_circuit n s coin_type = build_coined_walk_circuit n s ''grover''"
    using assms
    by (simp add: build_coined_walk_circuit_def walk_steps_not_hadamard [OF assms] Let_def)
  show "1 \<le> n \<longrightarrow> (\<exists>c. build_coined_walk_circuit n s coin_type = Inr c)"
    by (simp add: build_coined_walk_circuit_returns)
qed

theorem build_coined_walk_circuit_unsupported_coin_witness:
  "''qft'' \<noteq> ''hadamard''
   \<and> build_coined_walk_circuit 2 3 ''qft'' = build_coined_walk_circuit 2 3 ''grover''
   \<and> (\<exists>c. build_coined_walk_circuit 2 3 ''qft'' = Inr c)"
proof -
  have h: "''qft'' \<noteq> ''hadamard''"
    by simp
  note t = build_coined_walk_circuit_unsupported_coin [OF h, of 2 3]
  have a: "build_coined_walk_circuit 2 3 ''qft'' = build_coined_walk_circuit 2 3 ''grover''"
    by (rule t [THEN conjunct1])
  have b: "\<exists>c. build_coined_walk_circuit 2 3 ''qft'' = Inr c"
    by (rule t [THEN conjunct2, THEN mp]) simp
  show ?thesis
    by (rule conjI [OF h conjI [OF a b]])
qed

section \<open>The matrix exponential of the zero matrix\<close>

lemma length_identity: "length (identity n) = n"
  by (simp add: identity_def)

lemma identity_nth: "i < n \<Longrightarrow> j < n \<Longrightarrow> identity n ! i ! j = (if i = j then 1 else 0)"
  by (simp add: identity_def)

lemma mat_mul_nth:
  "i < length M \<Longrightarrow> j < length M \<Longrightarrow>
     mat_mul M N ! i ! j = (\<Sum>k<length M. M ! i ! k * N ! k ! j)"
  by (simp add: mat_mul_def Let_def)

lemma mat_pow_zero_matrix:
  assumes "\<forall>i<length M. \<forall>j<length M. M ! i ! j = 0" "i < length M" "j < length M"
  shows "mat_pow M k ! i ! j = (if k = 0 then (if i = j then 1 else 0) else 0)"
proof (cases k)
  case 0
  then show ?thesis using assms by (simp add: identity_nth)
next
  case (Suc m)
  then show ?thesis using assms by (simp add: mat_mul_nth)
qed

lemma suminf_only_first:
  fixes c :: complex
  shows "(\<Sum>k. (if k = 0 then c else 0) / fact k) = c"
proof -
  have "(\<Sum>k. (if k = 0 then c else 0) / fact k)
          = (\<Sum>k\<in>{0::nat}. (if k = 0 then c else 0) / fact k)"
    by (rule suminf_finite) auto
  then show ?thesis by simp
qed

lemma expm_zero_matrix:
  assumes "\<forall>i<length M. \<forall>j<length M. M ! i ! j = 0"
  shows "expm M = identity (length M)"
proof -
  have entry: "(\<Sum>k. mat_pow M k ! i ! j / fact k) = (if i = j then 1 else 0)"
    if "i < length M" "j < length M" for i j
  proof -
    have "(\<lambda>k. mat_pow M k ! i ! j / fact k)
            = (\<lambda>k. (if k = 0 then (if i = j then 1 else 0) else 0) / fact k)"
      using mat_pow_zero_matrix [OF assms that] by presburger
    then show ?thesis by (simp only: suminf_only_first)
  qed
  show ?thesis
    by (simp add: expm_def identity_def Let_def entry cong: map_cong)
qed

lemma expm_times_zero:
  assumes "\<forall>i<length A. length (A ! i) = length A"
  shows "expm (map (map (\<lambda>a. c a * 0)) A) = identity (length A)"
proof -
  have "expm (map (map (\<lambda>a. c a * 0)) A) = identity (length (map (map (\<lambda>a. c a * 0)) A))"
    by (rule expm_zero_matrix) (simp add: assms)
  then show ?thesis by simp
qed

lemma mat_vec_identity:
  assumes "length psi = n"
  shows "mat_vec (identity n) psi = psi"
proof (rule nth_equalityI)
  show "length (mat_vec (identity n) psi) = length psi"
    using assms by (simp add: mat_vec_def length_identity)
next
  fix i assume "i < length (mat_vec (identity n) psi)"
  then have i: "i < n" by (simp add: mat_vec_def length_identity)
  have "mat_vec (identity n) psi ! i = (\<Sum>k<n. identity n ! i ! k * psi ! k)"
    using i assms by (simp add: mat_vec_def length_identity)
  also have "\<dots> = (\<Sum>k<n. if k = i then psi ! k else 0)"
    using i by (intro sum.cong) (auto simp add: identity_nth)
  also have "\<dots> = psi ! i"
    using i by (simp add: sum.delta)
  finally show "mat_vec (identity n) psi ! i = psi ! i" .
qed

section \<open>Continuous-time evolution\<close>

text \<open>
  Claim C7. Zero-time identity: for every graph, every initial node of the graph and
  every \<open>\<gamma>\<close>, \<open>evolve_continuous_walk\<close> at time \<open>0\<close> returns the distribution of
  the initial state: the state and the probabilities are \<open>1\<close> at the initial node and
  \<open>0\<close> everywhere else.
\<close>

theorem evolve_zero_time:
  assumes "0 \<le> initial_node" "initial_node < int (number_of_nodes g)"
  shows "evolve_continuous_walk g initial_node 0 gamma =
           Inr \<lparr>probabilities = (replicate (number_of_nodes g) 0)[nat initial_node := 1],
                state = (replicate (number_of_nodes g) 0)[nat initial_node := 1]\<rparr>"
proof -
  let ?n = "number_of_nodes g"
  from assms have pos: "0 < ?n" by simp
  then obtain A where A: "adjacency_matrix g = Inr A"
    using adjacency_matrix_returns by blast
  then have len: "length A = ?n" by (rule length_adjacency_matrix)
  have idx: "np_index ?n initial_node = Inr (nat initial_node)"
    using assms by (simp add: np_index_def)
  have U: "expm (map (map (\<lambda>a. - \<i> * of_real gamma * of_real a * of_real 0)) A) = identity ?n"
    using expm_times_zero [of A "\<lambda>a. - \<i> * of_real gamma * of_real a"]
      adjacency_matrix_square [OF A] len by simp
  have mv: "mat_vec (identity ?n) ((np_zeros ?n)[nat initial_node := 1])
              = (np_zeros ?n)[nat initial_node := 1]"
    by (rule mat_vec_identity) (simp add: np_zeros_def)
  have sq: "map (\<lambda>z. (cmod z)\<^sup>2) ((replicate ?n (0::complex))[nat initial_node := 1])
              = (replicate ?n 0)[nat initial_node := 1]"
    by (simp add: map_update)
  show ?thesis
    using U by (simp add: evolve_continuous_walk_def adjacency_hamiltonian_def A idx mv Let_def)
       (simp add: np_zeros_def sq)
qed

theorem evolve_zero_time_witness:
  "(0::int) \<le> 0 \<and> 0 < int (number_of_nodes K2)
   \<and> evolve_continuous_walk K2 0 0 1 = Inr \<lparr>probabilities = [1, 0], state = [1, 0]\<rparr>"
proof -
  have h1: "(0::int) \<le> 0" by simp
  have h2: "0 < int (number_of_nodes K2)" by (simp add: number_of_nodes_K2)
  show ?thesis
    using h2 evolve_zero_time [OF h1 h2, of 1]
    by (simp add: number_of_nodes_K2 numeral_2_eq_2)
qed

section \<open>The time sweep\<close>

lemma evolve_continuous_walk_returns:
  assumes "- int (number_of_nodes g) \<le> initial_node" "initial_node < int (number_of_nodes g)"
  shows "\<exists>e. evolve_continuous_walk g initial_node t gamma = Inr e"
proof -
  from assms have "0 < number_of_nodes g" by simp
  then obtain A where A: "adjacency_matrix g = Inr A"
    using adjacency_matrix_returns by blast
  have "\<exists>k. np_index (number_of_nodes g) initial_node = Inr k"
    using assms by (simp add: np_index_def)
  then show ?thesis
    using A by (auto simp add: evolve_continuous_walk_def adjacency_hamiltonian_def Let_def)
qed

lemma sweep_loop_rows:
  assumes "sweep_loop g initial_node gamma pm i ts = Inr pm'" "i + length ts \<le> length pm"
  shows "length pm' = length pm
       \<and> (\<forall>k<length ts. \<exists>e. evolve_continuous_walk g initial_node (ts ! k) gamma = Inr e
                             \<and> pm' ! (i + k) = probabilities e)
       \<and> (\<forall>k<i. pm' ! k = pm ! k)"
  using assms
proof (induction ts arbitrary: pm i)
  case Nil
  then show ?case by simp
next
  case (Cons t ts)
  from Cons.prems(1) obtain e where
    e: "evolve_continuous_walk g initial_node t gamma = Inr e"
    and rest: "sweep_loop g initial_node gamma (pm[i := probabilities e]) (Suc i) ts = Inr pm'"
    by (auto split: sum.splits)
  from Cons.prems(2) have bound: "Suc i + length ts \<le> length (pm[i := probabilities e])"
    by simp
  note ih = Cons.IH [OF rest bound]
  from ih have len: "length pm' = length pm" by simp
  from ih have tail: "\<forall>k<length ts. \<exists>e'. evolve_continuous_walk g initial_node (ts ! k) gamma = Inr e'
                             \<and> pm' ! (Suc i + k) = probabilities e'" by blast
  from ih have before: "\<forall>k<Suc i. pm' ! k = pm[i := probabilities e] ! k" by blast
  from before Cons.prems(2) have here: "pm' ! i = probabilities e" by simp
  have rows: "\<exists>e'. evolve_continuous_walk g initial_node ((t # ts) ! k) gamma = Inr e'
                 \<and> pm' ! (i + k) = probabilities e'" if "k < length (t # ts)" for k
  proof (cases k)
    case 0
    then show ?thesis using e here by simp
  next
    case (Suc m)
    then show ?thesis using tail that by simp
  qed
  have keep: "pm' ! k = pm ! k" if "k < i" for k
    using before that by simp
  show ?case using len rows keep by blast
qed

lemma sweep_loop_raises:
  assumes "sweep_loop g initial_node gamma pm i ts = Inl err"
  shows "\<exists>k<length ts. evolve_continuous_walk g initial_node (ts ! k) gamma = Inl err"
  using assms
proof (induction ts arbitrary: pm i)
  case Nil
  then show ?case by simp
next
  case (Cons t ts)
  show ?case
  proof (cases "evolve_continuous_walk g initial_node t gamma")
    case (Inl e)
    with Cons.prems have "e = err" by simp
    with Inl have "evolve_continuous_walk g initial_node ((t # ts) ! 0) gamma = Inl err" by simp
    then show ?thesis by blast
  next
    case (Inr e)
    with Cons.prems have "sweep_loop g initial_node gamma (pm[i := probabilities e]) (Suc i) ts = Inl err"
      by simp
    from Cons.IH [OF this] obtain k where
      "k < length ts" "evolve_continuous_walk g initial_node (ts ! k) gamma = Inl err" by blast
    then have "Suc k < length (t # ts)
        \<and> evolve_continuous_walk g initial_node ((t # ts) ! Suc k) gamma = Inl err" by simp
    then show ?thesis by blast
  qed
qed

text \<open>
  Claim C8. The sweep is indexed like its input: whenever \<open>sweep_evolution\<close>
  returns, \<open>'times'\<close> is the input time sequence and row \<open>i\<close> of
  \<open>'prob_matrix'\<close> is the \<open>'probabilities'\<close> that \<open>evolve_continuous_walk\<close>
  returns for the \<open>i\<close>-th time; when it raises, the single-time evolution raises the
  same error at one of the times; and it does return for every initial node index the
  graph accepts.
\<close>

theorem sweep_evolution_rows:
  "(\<forall>r. sweep_evolution g initial_node time_range gamma = Inr r \<longrightarrow>
        times r = time_range
      \<and> length (prob_matrix r) = length time_range
      \<and> (\<forall>i<length time_range.
            \<exists>e. evolve_continuous_walk g initial_node (time_range ! i) gamma = Inr e
               \<and> prob_matrix r ! i = probabilities e))
   \<and> (\<forall>err. sweep_evolution g initial_node time_range gamma = Inl err \<longrightarrow>
         (\<exists>i<length time_range.
            evolve_continuous_walk g initial_node (time_range ! i) gamma = Inl err))
   \<and> (- int (number_of_nodes g) \<le> initial_node \<and> initial_node < int (number_of_nodes g) \<longrightarrow>
         (\<exists>r. sweep_evolution g initial_node time_range gamma = Inr r))"
proof -
  let ?pm = "np_zeros2 (length time_range) (number_of_nodes g) :: real list list"
  have returned: "times r = time_range
      \<and> length (prob_matrix r) = length time_range
      \<and> (\<forall>i<length time_range.
            \<exists>e. evolve_continuous_walk g initial_node (time_range ! i) gamma = Inr e
               \<and> prob_matrix r ! i = probabilities e)"
    if r: "sweep_evolution g initial_node time_range gamma = Inr r" for r
  proof -
    from r obtain pm' where
      loop: "sweep_loop g initial_node gamma ?pm 0 time_range = Inr pm'"
      and r_eq: "r = \<lparr>times = time_range, prob_matrix = pm'\<rparr>"
      by (auto simp add: sweep_evolution_def Let_def split: sum.splits)
    have "0 + length time_range \<le> length ?pm"
      by (simp add: np_zeros2_def)
    note rows = sweep_loop_rows [OF loop this]
    show ?thesis
      using rows r_eq by (simp add: np_zeros2_def)
  qed
  have raised: "\<exists>i<length time_range.
            evolve_continuous_walk g initial_node (time_range ! i) gamma = Inl err"
    if "sweep_evolution g initial_node time_range gamma = Inl err" for err
  proof -
    from that have "sweep_loop g initial_node gamma ?pm 0 time_range = Inl err"
      by (auto simp add: sweep_evolution_def Let_def split: sum.splits)
    then show ?thesis
      by (rule sweep_loop_raises)
  qed
  have total: "\<exists>r. sweep_evolution g initial_node time_range gamma = Inr r"
    if valid: "- int (number_of_nodes g) \<le> initial_node \<and> initial_node < int (number_of_nodes g)"
  proof (cases "sweep_evolution g initial_node time_range gamma")
    case (Inr r)
    then show ?thesis by blast
  next
    case (Inl err)
    from raised [OF this] obtain i where
      "evolve_continuous_walk g initial_node (time_range ! i) gamma = Inl err" by blast
    moreover from valid obtain e where
      "evolve_continuous_walk g initial_node (time_range ! i) gamma = Inr e"
      using evolve_continuous_walk_returns by blast
    ultimately show ?thesis by simp
  qed
  show ?thesis
    using returned raised total by blast
qed

theorem sweep_evolution_rows_witness:
  "\<exists>r. sweep_evolution K2 0 [0, 1] 1 = Inr r
      \<and> times r = [0, 1]
      \<and> length (prob_matrix r) = 2
      \<and> (\<exists>e. evolve_continuous_walk K2 0 0 1 = Inr e \<and> prob_matrix r ! 0 = probabilities e)
      \<and> (\<exists>e. evolve_continuous_walk K2 0 1 1 = Inr e \<and> prob_matrix r ! 1 = probabilities e)"
proof -
  note t = sweep_evolution_rows [of K2 0 "[0, 1]" 1]
  have "- int (number_of_nodes K2) \<le> 0 \<and> 0 < int (number_of_nodes K2)"
    by (simp add: number_of_nodes_K2)
  with t obtain r where r: "sweep_evolution K2 0 [0, 1] 1 = Inr r" by blast
  with t have a: "times r = [0, 1]" and b: "length (prob_matrix r) = length [0::real, 1]"
    and c: "\<forall>i<length [0::real, 1]. \<exists>e. evolve_continuous_walk K2 0 ([0, 1] ! i) 1 = Inr e
               \<and> prob_matrix r ! i = probabilities e" by blast+
  from c [rule_format, of 0]
  have c0: "\<exists>e. evolve_continuous_walk K2 0 0 1 = Inr e \<and> prob_matrix r ! 0 = probabilities e"
    by simp
  from c [rule_format, of 1]
  have c1: "\<exists>e. evolve_continuous_walk K2 0 1 1 = Inr e \<and> prob_matrix r ! 1 = probabilities e"
    by simp
  show ?thesis using r a b c0 c1 by auto
qed

section \<open>The spectral search\<close>

lemma argmax_from_greatest:
  assumes "best_i < length pre" "best_v = pre ! best_i" "\<forall>k<length pre. pre ! k \<le> best_v"
  shows "argmax_from best_i best_v (length pre) xs < length (pre @ xs)
       \<and> (\<forall>k<length (pre @ xs). (pre @ xs) ! k \<le> (pre @ xs) ! argmax_from best_i best_v (length pre) xs)"
  using assms
proof (induction xs arbitrary: pre best_i best_v)
  case Nil
  then show ?case by simp
next
  case (Cons x xs)
  let ?pre = "pre @ [x]"
  show ?case
  proof (cases "best_v < x")
    case True
    have a: "length pre < length ?pre" by simp
    have b: "x = ?pre ! length pre" by simp
    have c: "\<forall>k<length ?pre. ?pre ! k \<le> x"
      using Cons.prems(3) True by (auto simp add: nth_append less_Suc_eq)
    from Cons.IH [OF a b c] True show ?thesis by simp
  next
    case False
    have a: "best_i < length ?pre" using Cons.prems(1) by simp
    have b: "best_v = ?pre ! best_i" using Cons.prems(1,2) by (simp add: nth_append)
    have c: "\<forall>k<length ?pre. ?pre ! k \<le> best_v"
      using Cons.prems(3) False by (auto simp add: nth_append less_Suc_eq)
    from Cons.IH [OF a b c] False show ?thesis by simp
  qed
qed

lemma np_argmax_greatest:
  assumes "xs \<noteq> []"
  shows "\<exists>j. np_argmax xs = Inr j \<and> j < length xs \<and> (\<forall>i<length xs. xs ! i \<le> xs ! j)"
proof -
  from assms obtain x rest where xs: "xs = x # rest" by (cases xs) auto
  have "argmax_from 0 x (length [x]) rest < length ([x] @ rest)
       \<and> (\<forall>k<length ([x] @ rest). ([x] @ rest) ! k \<le> ([x] @ rest) ! argmax_from 0 x (length [x]) rest)"
    by (rule argmax_from_greatest) simp_all
  then show ?thesis by (simp add: xs np_argmax_def)
qed

lemma linspace_from_zero:
  assumes "1 \<le> num"
  shows "\<exists>ts. linspace 0 T num = Inr ts \<and> length ts = nat num \<and> ts ! 0 = 0"
proof (cases "1 < nat num")
  case True
  then show ?thesis by (simp add: linspace_def Let_def)
next
  case False
  with assms have "nat num = 1" by simp
  then show ?thesis using assms by (simp add: linspace_def Let_def)
qed

lemma build_search_hamiltonian_square:
  assumes "build_search_hamiltonian g w gamma = Inr Hm"
  shows "length Hm = number_of_nodes g \<and> (\<forall>i<length Hm. length (Hm ! i) = length Hm)"
proof -
  from assms obtain A k where A: "adjacency_matrix g = Inr A"
    and Hm: "Hm = mat_add (mat_scale (- gamma) A)
                    (set_entry (np_zeros2 (number_of_nodes g) (number_of_nodes g)) k k 1)"
    by (auto simp add: build_search_hamiltonian_def Let_def split: sum.splits)
  have len: "length A = number_of_nodes g"
    using A by (rule length_adjacency_matrix)
  have rows: "length (A ! i) = number_of_nodes g" if "i < number_of_nodes g" for i
    using adjacency_matrix_square [OF A] len that by simp
  have orows: "length (set_entry (np_zeros2 n n) k k (1::real) ! i) = n" if "i < n" for i n
    using that by (cases "i = k") (simp_all add: set_entry_def np_zeros2_def)
  show ?thesis
    using len rows orows by (simp add: Hm mat_add_def mat_scale_def set_entry_def np_zeros2_def)
qed

lemma success_probability_zero_time:
  assumes "\<forall>i<length Hm. length (Hm ! i) = length Hm" "length psi_0 = length Hm"
  shows "success_probability Hm psi_0 w 0 = (cmod (psi_0 ! w))\<^sup>2"
proof -
  have "expm (map (map (\<lambda>h. - \<i> * of_real h * of_real 0)) Hm) = identity (length Hm)"
    using expm_times_zero [of Hm "\<lambda>h. - \<i> * of_real h"] assms(1) by simp
  then show ?thesis
    using assms(2) by (simp add: success_probability_def mat_vec_identity Let_def)
qed

lemma cmod_uniform_sq:
  assumes "0 < n"
  shows "(cmod (1 / of_real (sqrt (real n))))\<^sup>2 = 1 / real n"
  using assms by (simp add: norm_divide power_divide)

lemma length_uniform_superposition: "length (uniform_superposition n) = n"
  by (simp add: uniform_superposition_def)

lemma uniform_superposition_nth:
  "w < n \<Longrightarrow> uniform_superposition n ! w = 1 / of_real (sqrt (real n))"
  by (simp add: uniform_superposition_def)

lemma build_search_hamiltonian_returns:
  assumes "0 < number_of_nodes g"
  shows "- int (number_of_nodes g) \<le> w \<and> w < int (number_of_nodes g) \<longrightarrow>
            (\<exists>Hm. build_search_hamiltonian g w gamma = Inr Hm)"
  using assms
  by (auto simp add: build_search_hamiltonian_def adjacency_matrix_def np_index_def Let_def)

lemma search_continuous_walk_returns:
  assumes "0 \<le> marked_vertex" "marked_vertex < int (number_of_nodes g)" "1 \<le> n_time_steps"
  shows "\<exists>ts Hm j.
           build_search_hamiltonian g marked_vertex
             (case gamma of None \<Rightarrow> 1 / real (number_of_nodes g) | Some c \<Rightarrow> c) = Inr Hm
         \<and> length ts = nat n_time_steps \<and> ts ! 0 = 0 \<and> j < length ts
         \<and> (\<forall>i<length ts.
               success_probability Hm (uniform_superposition (number_of_nodes g)) (nat marked_vertex) (ts ! i)
               \<le> success_probability Hm (uniform_superposition (number_of_nodes g)) (nat marked_vertex) (ts ! j))
         \<and> search_continuous_walk g marked_vertex gamma time n_time_steps =
             Inr \<lparr>optimal_time = ts ! j,
                  max_probability =
                    success_probability Hm (uniform_superposition (number_of_nodes g))
                      (nat marked_vertex) (ts ! j),
                  search_times = ts,
                  success_probs =
                    map (success_probability Hm (uniform_superposition (number_of_nodes g))
                      (nat marked_vertex)) ts\<rparr>"
proof -
  let ?n = "number_of_nodes g"
  let ?gamma = "case gamma of None \<Rightarrow> 1 / real ?n | Some c \<Rightarrow> c"
  let ?time = "case time of None \<Rightarrow> pi / 2 * sqrt (real ?n) | Some T \<Rightarrow> T"
  let ?f = "success_probability"
  from assms have pos: "0 < ?n" by simp
  have g_ok: "(case gamma of None \<Rightarrow> if ?n = 0 then Inl ZeroDivisionError else Inr (1 / real ?n)
                | Some c \<Rightarrow> Inr c) = Inr ?gamma"
    using pos by (simp split: option.splits)
  from linspace_from_zero [OF assms(3)] obtain ts where
    ts: "linspace 0 ?time n_time_steps = Inr ts" "length ts = nat n_time_steps" "ts ! 0 = 0"
    by blast
  have "- int ?n \<le> marked_vertex \<and> marked_vertex < int ?n"
    using assms by simp
  with build_search_hamiltonian_returns [OF pos] obtain Hm where
    Hm: "build_search_hamiltonian g marked_vertex ?gamma = Inr Hm" by blast
  have idx: "np_index ?n marked_vertex = Inr (nat marked_vertex)"
    using assms by (simp add: np_index_def)
  let ?probs = "map (?f Hm (uniform_superposition ?n) (nat marked_vertex)) ts"
  have "?probs \<noteq> []"
    using ts(2) assms(3) by auto
  from np_argmax_greatest [OF this] obtain j where
    j: "np_argmax ?probs = Inr j" "j < length ?probs" "\<forall>i<length ?probs. ?probs ! i \<le> ?probs ! j"
    by blast
  have res: "search_continuous_walk g marked_vertex gamma time n_time_steps =
             Inr \<lparr>optimal_time = ts ! j, max_probability = ?probs ! j,
                  search_times = ts, success_probs = ?probs\<rparr>"
    by (simp add: search_continuous_walk_def Let_def g_ok ts(1) Hm idx j(1))
  show ?thesis
    using Hm ts(2,3) j(2,3) res by (intro exI [of _ ts] exI [of _ Hm] exI [of _ j]) simp
qed

text \<open>
  With no sampled time (\<open>n_time_steps \<le> 0\<close>) the search raises \<open>ValueError\<close>:
  from \<open>np.linspace\<close> for a negative count, from \<open>np.argmax\<close> of the empty
  array for zero. The two claims below are about at least one sample.
\<close>

lemma search_continuous_walk_without_samples:
  assumes "0 \<le> marked_vertex" "marked_vertex < int (number_of_nodes g)" "n_time_steps \<le> 0"
  shows "search_continuous_walk g marked_vertex gamma time n_time_steps = Inl ValueError"
proof -
  let ?n = "number_of_nodes g"
  let ?gamma = "case gamma of None \<Rightarrow> 1 / real ?n | Some c \<Rightarrow> c"
  from assms have pos: "0 < ?n" by simp
  have g_ok: "(case gamma of None \<Rightarrow> if ?n = 0 then Inl ZeroDivisionError else Inr (1 / real ?n)
                | Some c \<Rightarrow> Inr c) = Inr ?gamma"
    using pos by (simp split: option.splits)
  have "- int ?n \<le> marked_vertex \<and> marked_vertex < int ?n"
    using assms by simp
  with build_search_hamiltonian_returns [OF pos] obtain Hm where
    Hm: "build_search_hamiltonian g marked_vertex ?gamma = Inr Hm" by blast
  have idx: "np_index ?n marked_vertex = Inr (nat marked_vertex)"
    using assms by (simp add: np_index_def)
  show ?thesis
  proof (cases "n_time_steps < 0")
    case True
    then show ?thesis
      by (simp add: search_continuous_walk_def Let_def g_ok linspace_def)
  next
    case False
    with assms(3) have "n_time_steps = 0" by simp
    then show ?thesis
      by (simp add: search_continuous_walk_def Let_def g_ok linspace_def Hm idx np_argmax_def)
  qed
qed

text \<open>
  Claim C6. For every graph, every marked vertex of the graph and at least one sampled
  time, \<open>search_continuous_walk\<close> returns: the success probability at each sampled
  time is \<open>|psi_t[marked]|\<^sup>2\<close> for the state evolved from the uniform superposition
  under the search Hamiltonian (\<open>success_probability\<close>), no sampled success
  probability exceeds \<open>'max_probability'\<close>, and some index holds both
  \<open>'max_probability'\<close> among the success probabilities and \<open>'optimal_time'\<close> among
  the sampled times.
\<close>

theorem search_continuous_walk_reports_maximum:
  assumes "0 \<le> marked_vertex" "marked_vertex < int (number_of_nodes g)" "1 \<le> n_time_steps"
  shows "\<exists>r Hm.
           search_continuous_walk g marked_vertex gamma time n_time_steps = Inr r
         \<and> build_search_hamiltonian g marked_vertex
             (case gamma of None \<Rightarrow> 1 / real (number_of_nodes g) | Some c \<Rightarrow> c) = Inr Hm
         \<and> length (search_times r) = nat n_time_steps
         \<and> length (success_probs r) = nat n_time_steps
         \<and> (\<forall>i<nat n_time_steps.
               success_probs r ! i =
                 success_probability Hm (uniform_superposition (number_of_nodes g))
                   (nat marked_vertex) (search_times r ! i))
         \<and> (\<forall>i<nat n_time_steps. success_probs r ! i \<le> max_probability r)
         \<and> (\<exists>j<nat n_time_steps.
               success_probs r ! j = max_probability r \<and> search_times r ! j = optimal_time r)"
proof -
  let ?f = "\<lambda>Hm. success_probability Hm (uniform_superposition (number_of_nodes g))
                   (nat marked_vertex)"
  from search_continuous_walk_returns [OF assms, of gamma time] obtain ts Hm j where
    Hm: "build_search_hamiltonian g marked_vertex
             (case gamma of None \<Rightarrow> 1 / real (number_of_nodes g) | Some c \<Rightarrow> c) = Inr Hm"
    and len: "length ts = nat n_time_steps" and j: "j < length ts"
    and greatest: "\<forall>i<length ts. ?f Hm (ts ! i) \<le> ?f Hm (ts ! j)"
    and res: "search_continuous_walk g marked_vertex gamma time n_time_steps =
             Inr \<lparr>optimal_time = ts ! j, max_probability = ?f Hm (ts ! j),
                  search_times = ts, success_probs = map (?f Hm) ts\<rparr>"
    by blast
  let ?r = "\<lparr>optimal_time = ts ! j, max_probability = ?f Hm (ts ! j),
                  search_times = ts, success_probs = map (?f Hm) ts\<rparr>"
  have "\<exists>j<nat n_time_steps.
               success_probs ?r ! j = max_probability ?r \<and> search_times ?r ! j = optimal_time ?r"
    using j len by (intro exI [of _ j]) simp
  then show ?thesis
    using Hm len greatest res by (intro exI [of _ ?r] exI [of _ Hm]) simp
qed

theorem search_continuous_walk_reports_maximum_witness:
  "(0::int) \<le> 0 \<and> 0 < int (number_of_nodes K2) \<and> (1::int) \<le> 200
   \<and> (\<exists>r. search_continuous_walk K2 0 None None 200 = Inr r
          \<and> length (success_probs r) = 200
          \<and> (\<forall>i<200. success_probs r ! i \<le> max_probability r)
          \<and> (\<exists>j<200. success_probs r ! j = max_probability r
                     \<and> search_times r ! j = optimal_time r))"
proof -
  have h1: "(0::int) \<le> 0" by simp
  have h2: "0 < int (number_of_nodes K2)" by (simp add: number_of_nodes_K2)
  have h3: "(1::int) \<le> 200" by simp
  from search_continuous_walk_reports_maximum [OF h1 h2 h3, of None None]
  obtain r where "search_continuous_walk K2 0 None None 200 = Inr r
          \<and> length (success_probs r) = nat 200
          \<and> (\<forall>i<nat 200. success_probs r ! i \<le> max_probability r)
          \<and> (\<exists>j<nat 200. success_probs r ! j = max_probability r
                     \<and> search_times r ! j = optimal_time r)"
    by blast
  then have "\<exists>r. search_continuous_walk K2 0 None None 200 = Inr r
          \<and> length (success_probs r) = 200
          \<and> (\<forall>i<200. success_probs r ! i \<le> max_probability r)
          \<and> (\<exists>j<200. success_probs r ! j = max_probability r
                     \<and> search_times r ! j = optimal_time r)"
    by (intro exI [of _ r]) simp
  with h1 h2 h3 show ?thesis by (intro conjI)
qed

text \<open>
  In exact arithmetic the first sample, at time \<open>0\<close>, is exactly \<open>1/N\<close>, and the
  reported maximum is at least that. This is a fact about the real numbers, not about
  the doubles the code computes with: see the last section.
\<close>

lemma search_continuous_walk_exact_first_sample:
  assumes "0 \<le> marked_vertex" "marked_vertex < int (number_of_nodes g)" "1 \<le> n_time_steps"
  shows "\<exists>r. search_continuous_walk g marked_vertex gamma time n_time_steps = Inr r
            \<and> search_times r ! 0 = 0
            \<and> success_probs r ! 0 = 1 / real (number_of_nodes g)
            \<and> 1 / real (number_of_nodes g) \<le> max_probability r"
proof -
  let ?n = "number_of_nodes g"
  let ?f = "\<lambda>Hm. success_probability Hm (uniform_superposition ?n) (nat marked_vertex)"
  from search_continuous_walk_returns [OF assms, of gamma time] obtain ts Hm j where
    Hm: "build_search_hamiltonian g marked_vertex
             (case gamma of None \<Rightarrow> 1 / real ?n | Some c \<Rightarrow> c) = Inr Hm"
    and len: "length ts = nat n_time_steps" and first: "ts ! 0 = 0"
    and greatest: "\<forall>i<length ts. ?f Hm (ts ! i) \<le> ?f Hm (ts ! j)"
    and res: "search_continuous_walk g marked_vertex gamma time n_time_steps =
             Inr \<lparr>optimal_time = ts ! j, max_probability = ?f Hm (ts ! j),
                  search_times = ts, success_probs = map (?f Hm) ts\<rparr>"
    by blast
  from assms have pos: "0 < ?n" and w: "nat marked_vertex < ?n" by simp_all
  from assms(3) len have nonempty: "0 < length ts" by simp
  note sq = build_search_hamiltonian_square [OF Hm]
  have "?f Hm 0 = (cmod (uniform_superposition ?n ! nat marked_vertex))\<^sup>2"
    using sq by (intro success_probability_zero_time) (simp_all add: length_uniform_superposition)
  also have "\<dots> = 1 / real ?n"
    using w pos by (simp only: uniform_superposition_nth cmod_uniform_sq)
  finally have at_zero: "?f Hm (ts ! 0) = 1 / real ?n"
    using first by simp
  from greatest nonempty have "?f Hm (ts ! 0) \<le> ?f Hm (ts ! j)" by blast
  with at_zero have bound: "1 / real ?n \<le> ?f Hm (ts ! j)" by simp
  show ?thesis
    using res first at_zero bound nonempty by simp
qed

section \<open>Powers of a matrix\<close>

lemma length_mat_pow: "length (mat_pow M k) = length M"
  by (induction k) (simp_all add: length_identity mat_mul_def Let_def)

lemma mat_pow_add_nth:
  assumes "i < length M" "j < length M"
  shows "(\<Sum>l<length M. mat_pow M a ! i ! l * mat_pow M b ! l ! j) = mat_pow M (a + b) ! i ! j"
  using assms(1)
proof (induction a arbitrary: i)
  case 0
  have "(\<Sum>l<length M. mat_pow M 0 ! i ! l * mat_pow M b ! l ! j)
          = (\<Sum>l<length M. if l = i then mat_pow M b ! l ! j else 0)"
    using 0 by (intro sum.cong) (auto simp add: identity_nth)
  also have "\<dots> = mat_pow M b ! i ! j"
    using 0 by (simp add: sum.delta)
  finally show ?case by simp
next
  case (Suc a)
  let ?n = "length M"
  have "(\<Sum>l<?n. mat_pow M (Suc a) ! i ! l * mat_pow M b ! l ! j)
          = (\<Sum>l<?n. (\<Sum>m<?n. M ! i ! m * mat_pow M a ! m ! l) * mat_pow M b ! l ! j)"
    using Suc.prems by (intro sum.cong) (simp_all add: mat_mul_nth)
  also have "\<dots> = (\<Sum>l<?n. \<Sum>m<?n. M ! i ! m * (mat_pow M a ! m ! l * mat_pow M b ! l ! j))"
    by (simp add: sum_distrib_right mult.assoc)
  also have "\<dots> = (\<Sum>m<?n. \<Sum>l<?n. M ! i ! m * (mat_pow M a ! m ! l * mat_pow M b ! l ! j))"
    by (rule sum.swap)
  also have "\<dots> = (\<Sum>m<?n. M ! i ! m * (\<Sum>l<?n. mat_pow M a ! m ! l * mat_pow M b ! l ! j))"
    by (simp add: sum_distrib_left)
  also have "\<dots> = (\<Sum>m<?n. M ! i ! m * mat_pow M (a + b) ! m ! j)"
    by (intro sum.cong) (simp_all add: Suc.IH)
  also have "\<dots> = mat_pow M (Suc a + b) ! i ! j"
    using Suc.prems assms(2) by (simp add: mat_mul_nth)
  finally show ?case .
qed

lemma mat_pow_one_nth:
  assumes "i < length M" "j < length M"
  shows "mat_pow M (Suc 0) ! i ! j = M ! i ! j"
proof -
  have "mat_pow M (Suc 0) ! i ! j = (\<Sum>l<length M. M ! i ! l * identity (length M) ! l ! j)"
    using assms by (simp add: mat_mul_nth)
  also have "\<dots> = (\<Sum>l<length M. if l = j then M ! i ! l else 0)"
    using assms by (intro sum.cong) (auto simp add: identity_nth)
  also have "\<dots> = M ! i ! j"
    using assms by (simp add: sum.delta)
  finally show ?thesis .
qed

lemma mat_pow_Suc_right_nth:
  assumes "i < length M" "j < length M"
  shows "(\<Sum>l<length M. mat_pow M k ! i ! l * M ! l ! j) = mat_pow M (Suc k) ! i ! j"
proof -
  have "(\<Sum>l<length M. mat_pow M k ! i ! l * M ! l ! j)
          = (\<Sum>l<length M. mat_pow M k ! i ! l * mat_pow M (Suc 0) ! l ! j)"
    using assms by (intro sum.cong) (simp_all only: mat_pow_one_nth lessThan_iff)
  also have "\<dots> = mat_pow M (k + Suc 0) ! i ! j"
    using assms by (rule mat_pow_add_nth)
  finally show ?thesis by simp
qed

lemma mat_pow_cnj_nth:
  assumes skew: "\<forall>i<length M. \<forall>j<length M. cnj (M ! i ! j) = - (M ! j ! i)"
    and "i < length M" "j < length M"
  shows "cnj (mat_pow M k ! i ! j) = (- 1) ^ k * mat_pow M k ! j ! i"
  using assms(2,3)
proof (induction k arbitrary: i j)
  case 0
  then show ?case by (auto simp add: identity_nth)
next
  case (Suc k)
  let ?n = "length M"
  have "cnj (mat_pow M (Suc k) ! i ! j) = (\<Sum>l<?n. cnj (M ! i ! l) * cnj (mat_pow M k ! l ! j))"
    using Suc.prems by (simp add: mat_mul_nth)
  also have "\<dots> = (\<Sum>l<?n. (- 1) ^ Suc k * (mat_pow M k ! j ! l * M ! l ! i))"
    using Suc.prems skew by (intro sum.cong) (simp_all add: Suc.IH)
  also have "\<dots> = (- 1) ^ Suc k * (\<Sum>l<?n. mat_pow M k ! j ! l * M ! l ! i)"
    by (simp only: sum_distrib_left)
  also have "\<dots> = (- 1) ^ Suc k * mat_pow M (Suc k) ! j ! i"
    using Suc.prems by (simp only: mat_pow_Suc_right_nth)
  finally show ?case .
qed

lemma mat_pow_bound:
  assumes bound: "\<forall>i<length M. \<forall>j<length M. cmod (M ! i ! j) \<le> c"
    and "i < length M" "j < length M"
  shows "cmod (mat_pow M k ! i ! j) \<le> (real (length M) * c) ^ k"
  using assms(2)
proof (induction k arbitrary: i)
  case 0
  then show ?case using assms(3) by (simp add: identity_nth)
next
  case (Suc k)
  let ?n = "length M"
  from bound Suc.prems assms(3) have c: "0 \<le> c"
    using norm_ge_zero order_trans by blast
  have "cmod (mat_pow M (Suc k) ! i ! j) = cmod (\<Sum>l<?n. M ! i ! l * mat_pow M k ! l ! j)"
    using Suc.prems assms(3) by (simp add: mat_mul_nth)
  also have "\<dots> \<le> (\<Sum>l<?n. cmod (M ! i ! l * mat_pow M k ! l ! j))"
    by (rule norm_sum)
  also have "\<dots> \<le> (\<Sum>l<?n. c * (real ?n * c) ^ k)"
  proof (rule sum_mono)
    fix l assume "l \<in> {..<?n}"
    then have l: "l < ?n" by simp
    have "cmod (M ! i ! l * mat_pow M k ! l ! j) = cmod (M ! i ! l) * cmod (mat_pow M k ! l ! j)"
      by (rule norm_mult)
    also have "\<dots> \<le> c * (real ?n * c) ^ k"
      using bound Suc.prems l Suc.IH [OF l] by (intro mult_mono) (simp_all add: c)
    finally show "cmod (M ! i ! l * mat_pow M k ! l ! j) \<le> c * (real ?n * c) ^ k" .
  qed
  also have "\<dots> = (real ?n * c) ^ Suc k"
    by simp
  finally show ?case .
qed

section \<open>The matrix exponential of a skew-Hermitian matrix is unitary\<close>

lemma expm_nth:
  "i < length M \<Longrightarrow> j < length M \<Longrightarrow> expm M ! i ! j = (\<Sum>k. mat_pow M k ! i ! j / fact k)"
  by (simp add: expm_def Let_def)

lemma length_expm: "length (expm M) = length M"
  by (simp add: expm_def Let_def)

lemma expm_entry_summable:
  assumes "i < length M" "j < length M"
  shows "summable (\<lambda>k. cmod (mat_pow M k ! i ! j / fact k))"
proof -
  let ?n = "length M"
  define c where "c = (\<Sum>i<?n. \<Sum>j<?n. cmod (M ! i ! j))"
  have bound: "\<forall>i<?n. \<forall>j<?n. cmod (M ! i ! j) \<le> c"
  proof (intro allI impI)
    fix i j assume i: "i < ?n" and j: "j < ?n"
    have "cmod (M ! i ! j) \<le> (\<Sum>j<?n. cmod (M ! i ! j))"
      using j by (intro member_le_sum) simp_all
    also have "\<dots> \<le> c"
      unfolding c_def using i by (intro member_le_sum [of i _ "\<lambda>i. \<Sum>j<?n. cmod (M ! i ! j)"])
        (simp_all add: sum_nonneg)
    finally show "cmod (M ! i ! j) \<le> c" .
  qed
  have "summable (\<lambda>k. inverse (fact k) * (real ?n * c) ^ k)"
    by (rule summable_exp)
  moreover have "norm (cmod (mat_pow M k ! i ! j / fact k)) \<le> inverse (fact k) * (real ?n * c) ^ k"
    for k
  proof -
    have "cmod (mat_pow M k ! i ! j / fact k) = inverse (fact k) * cmod (mat_pow M k ! i ! j)"
      by (simp add: norm_divide field_simps)
    also have "\<dots> \<le> inverse (fact k) * (real ?n * c) ^ k"
      using mat_pow_bound [OF bound assms, of k] by (intro mult_left_mono) simp_all
    finally show ?thesis by simp
  qed
  ultimately show ?thesis
    by (rule summable_comparison_test')
qed

lemma suminf_at_zero:
  fixes c :: complex
  shows "(\<Sum>k. if k = (0::nat) then c else 0) = c"
proof -
  have "(\<Sum>k. if k = (0::nat) then c else 0) = (\<Sum>k\<in>{0::nat}. if k = 0 then c else 0)"
    by (rule suminf_finite) auto
  then show ?thesis by simp
qed

lemma alternating_binomial_fact:
  "(\<Sum>m\<le>k. (- 1) ^ m / (fact m * fact (k - m))) = (if k = 0 then 1 else (0::complex))"
proof (cases "k = 0")
  case True
  then show ?thesis by simp
next
  case False
  have "(\<Sum>m\<le>k. (- 1) ^ m / (fact m * fact (k - m)))
          = (\<Sum>m\<le>k. (- 1) ^ m * of_nat (k choose m) / (fact k :: complex))"
    by (intro sum.cong) (simp_all add: binomial_fact)
  also have "\<dots> = (\<Sum>m\<le>k. (- 1) ^ m * of_nat (k choose m)) / (fact k :: complex)"
    by (simp add: sum_divide_distrib)
  also have "\<dots> = 0"
    using False by (simp add: choose_alternating_sum)
  finally show ?thesis using False by simp
qed

lemma expm_unitary_entry:
  assumes skew: "\<forall>i<length M. \<forall>j<length M. cnj (M ! i ! j) = - (M ! j ! i)"
    and a: "a < length M" and b: "b < length M"
  shows "(\<Sum>i<length M. cnj (expm M ! i ! a) * expm M ! i ! b) = (if a = b then 1 else 0)"
proof -
  let ?n = "length M"
  define f where "f i k = (- 1) ^ k * mat_pow M k ! a ! i / fact k" for i k
  define g where "g i k = mat_pow M k ! i ! b / fact k" for i k
  define h where "h i k = (\<Sum>m\<le>k. f i m * g i (k - m))" for i k
  have f_abs: "summable (\<lambda>k. cmod (f i k))" if "i < ?n" for i
    using expm_entry_summable [OF a that] by (simp add: f_def norm_mult norm_divide norm_power)
  have g_abs: "summable (\<lambda>k. cmod (g i k))" if "i < ?n" for i
    using expm_entry_summable [OF that b] by (simp add: g_def)
  have f_sum: "cnj (expm M ! i ! a) = (\<Sum>k. f i k)" if i: "i < ?n" for i
  proof -
    have "summable (\<lambda>k. mat_pow M k ! i ! a / fact k)"
      using expm_entry_summable [OF i a] by (rule summable_norm_cancel)
    then have "(\<lambda>k. mat_pow M k ! i ! a / fact k) sums (expm M ! i ! a)"
      using i a by (simp add: expm_nth summable_sums)
    then have "(\<lambda>k. cnj (mat_pow M k ! i ! a / fact k)) sums cnj (expm M ! i ! a)"
      by (simp only: sums_cnj)
    moreover have "cnj (mat_pow M k ! i ! a / fact k) = f i k" for k
      using mat_pow_cnj_nth [OF skew i a, of k] by (simp add: f_def)
    ultimately have "f i sums cnj (expm M ! i ! a)"
      by simp
    then show ?thesis
      by (simp add: sums_unique)
  qed
  have g_sum: "expm M ! i ! b = (\<Sum>k. g i k)" if "i < ?n" for i
    using that b by (simp add: expm_nth g_def)
  have prod: "cnj (expm M ! i ! a) * expm M ! i ! b = (\<Sum>k. h i k)" if i: "i < ?n" for i
    unfolding h_def f_sum [OF i] g_sum [OF i]
    by (rule Cauchy_product [OF f_abs [OF i] g_abs [OF i]])
  have h_summable: "summable (h i)" if i: "i < ?n" for i
    unfolding h_def by (rule summable_Cauchy_product [OF f_abs [OF i] g_abs [OF i]])
  have column: "(\<Sum>i<?n. h i k) = (if k = 0 then (if a = b then 1 else 0) else 0)" for k
  proof -
    have "(\<Sum>i<?n. h i k)
            = (\<Sum>m\<le>k. \<Sum>i<?n. (- 1) ^ m / (fact m * fact (k - m))
                 * (mat_pow M m ! a ! i * mat_pow M (k - m) ! i ! b))"
      unfolding h_def f_def g_def by (subst sum.swap) (simp add: field_simps)
    also have "\<dots> = (\<Sum>m\<le>k. (- 1) ^ m / (fact m * fact (k - m))
                 * (\<Sum>i<?n. mat_pow M m ! a ! i * mat_pow M (k - m) ! i ! b))"
      by (simp only: sum_distrib_left)
    also have "\<dots> = (\<Sum>m\<le>k. (- 1) ^ m / (fact m * fact (k - m)) * mat_pow M k ! a ! b)"
      by (intro sum.cong) (simp_all add: mat_pow_add_nth [OF a b])
    also have "\<dots> = (\<Sum>m\<le>k. (- 1) ^ m / (fact m * fact (k - m))) * mat_pow M k ! a ! b"
      by (simp only: sum_distrib_right)
    also have "\<dots> = (if k = 0 then (if a = b then 1 else 0) else 0)"
      using a b by (simp add: alternating_binomial_fact identity_nth)
    finally show ?thesis .
  qed
  have "(\<Sum>i<?n. cnj (expm M ! i ! a) * expm M ! i ! b) = (\<Sum>i<?n. \<Sum>k. h i k)"
    by (intro sum.cong) (simp_all add: prod)
  also have "\<dots> = (\<Sum>k. \<Sum>i<?n. h i k)"
    by (rule suminf_sum [symmetric]) (simp add: h_summable)
  also have "\<dots> = (\<Sum>k. if k = 0 then (if a = b then 1 else 0) else 0)"
    by (simp only: column)
  also have "\<dots> = (if a = b then 1 else 0)"
    by (rule suminf_at_zero)
  finally show ?thesis .
qed

section \<open>Unitarity of the continuous-time evolution\<close>

lemma mat_vec_nth:
  "i < length U \<Longrightarrow> mat_vec U psi ! i = (\<Sum>l<length psi. U ! i ! l * psi ! l)"
  by (simp add: mat_vec_def)

lemma length_mat_vec: "length (mat_vec U psi) = length U"
  by (simp add: mat_vec_def)

lemma sum_list_cmod_sq:
  "of_real (sum_list (map (\<lambda>z. (cmod z)\<^sup>2) psi)) = (\<Sum>i<length psi. cnj (psi ! i) * psi ! i)"
proof -
  have pt: "cnj z * z = of_real ((cmod z)\<^sup>2)" for z
    using complex_norm_square [of z] by (simp add: mult.commute)
  have "sum_list (map (\<lambda>z. (cmod z)\<^sup>2) psi) = (\<Sum>i<length psi. (cmod (psi ! i))\<^sup>2)"
    by (simp add: sum_list_sum_nth atLeast0LessThan)
  then show ?thesis
    by (simp only: pt of_real_sum)
qed

lemma expm_preserves_norm:
  assumes skew: "\<forall>i<length M. \<forall>j<length M. cnj (M ! i ! j) = - (M ! j ! i)"
    and len: "length psi = length M"
  shows "sum_list (map (\<lambda>z. (cmod z)\<^sup>2) (mat_vec (expm M) psi))
           = sum_list (map (\<lambda>z. (cmod z)\<^sup>2) psi)"
proof -
  let ?n = "length M"
  let ?U = "expm M"
  let ?phi = "mat_vec ?U psi"
  have len_phi: "length ?phi = ?n"
    by (simp add: length_mat_vec length_expm)
  have entry: "cnj (?phi ! i) * ?phi ! i
      = (\<Sum>l<?n. \<Sum>m<?n. cnj (psi ! l) * psi ! m * (cnj (?U ! i ! l) * ?U ! i ! m))"
    if "i < ?n" for i
  proof -
    have "?phi ! i = (\<Sum>m<?n. ?U ! i ! m * psi ! m)"
      using that len by (simp add: mat_vec_nth length_expm)
    then have "cnj (?phi ! i) * ?phi ! i
        = (\<Sum>l<?n. cnj (?U ! i ! l) * cnj (psi ! l)) * (\<Sum>m<?n. ?U ! i ! m * psi ! m)"
      by simp
    also have "\<dots> = (\<Sum>l<?n. \<Sum>m<?n. (cnj (?U ! i ! l) * cnj (psi ! l)) * (?U ! i ! m * psi ! m))"
      by (rule sum_product)
    also have "\<dots> = (\<Sum>l<?n. \<Sum>m<?n. cnj (psi ! l) * psi ! m * (cnj (?U ! i ! l) * ?U ! i ! m))"
      by (intro sum.cong) (simp_all add: mult_ac)
    finally show ?thesis .
  qed
  have "of_real (sum_list (map (\<lambda>z. (cmod z)\<^sup>2) ?phi)) = (\<Sum>i<?n. cnj (?phi ! i) * ?phi ! i)"
    by (simp only: sum_list_cmod_sq len_phi)
  also have "\<dots> = (\<Sum>i<?n. \<Sum>l<?n. \<Sum>m<?n.
                        cnj (psi ! l) * psi ! m * (cnj (?U ! i ! l) * ?U ! i ! m))"
    by (intro sum.cong) (simp_all add: entry)
  also have "\<dots> = (\<Sum>l<?n. \<Sum>i<?n. \<Sum>m<?n.
                        cnj (psi ! l) * psi ! m * (cnj (?U ! i ! l) * ?U ! i ! m))"
    by (rule sum.swap)
  also have "\<dots> = (\<Sum>l<?n. \<Sum>m<?n. \<Sum>i<?n.
                        cnj (psi ! l) * psi ! m * (cnj (?U ! i ! l) * ?U ! i ! m))"
    by (intro sum.cong refl sum.swap)
  also have "\<dots> = (\<Sum>l<?n. \<Sum>m<?n.
                        cnj (psi ! l) * psi ! m * (\<Sum>i<?n. cnj (?U ! i ! l) * ?U ! i ! m))"
    by (simp only: sum_distrib_left)
  also have "\<dots> = (\<Sum>l<?n. \<Sum>m<?n. cnj (psi ! l) * psi ! m * (if l = m then 1 else 0))"
    by (intro sum.cong refl) (simp add: expm_unitary_entry [OF skew])
  also have "\<dots> = (\<Sum>l<?n. \<Sum>m<?n. if m = l then cnj (psi ! l) * psi ! m else 0)"
    by (intro sum.cong refl) auto
  also have "\<dots> = (\<Sum>l<?n. cnj (psi ! l) * psi ! l)"
    by (intro sum.cong refl) (simp add: sum.delta)
  also have "\<dots> = of_real (sum_list (map (\<lambda>z. (cmod z)\<^sup>2) psi))"
    by (simp only: sum_list_cmod_sq len)
  finally show ?thesis
    by (simp only: of_real_eq_iff)
qed

lemma has_edge_sym: "has_edge g i j = has_edge g j i"
  by (auto simp add: has_edge_def)

lemma adjacency_matrix_nth:
  assumes "adjacency_matrix g = Inr A" "i < number_of_nodes g" "j < number_of_nodes g"
  shows "A ! i ! j = (if has_edge g i j then 1 else 0)"
  using assms by (auto simp add: adjacency_matrix_def Let_def split: if_splits)

lemma adjacency_matrix_sym:
  assumes "adjacency_matrix g = Inr A" "i < number_of_nodes g" "j < number_of_nodes g"
  shows "A ! i ! j = A ! j ! i"
  using adjacency_matrix_nth [OF assms] adjacency_matrix_nth [OF assms(1) assms(3) assms(2)]
  by (simp add: has_edge_sym [of g i j])

lemma sum_list_basis_state:
  assumes "k < n"
  shows "sum_list (map (\<lambda>z. (cmod z)\<^sup>2) ((np_zeros n)[k := (1::complex)])) = 1"
proof -
  have "map (\<lambda>z. (cmod z)\<^sup>2) ((replicate n (0::complex))[k := 1]) = (replicate n 0)[k := 1]"
    by (simp add: map_update)
  moreover have "sum_list ((replicate n (0::real))[k := 1]) = 1"
  proof -
    have "sum_list ((replicate n (0::real))[k := 1]) = (\<Sum>i<n. if i = k then 1 else 0)"
      unfolding sum_list_sum_nth atLeast0LessThan
      by (intro sum.cong) (auto simp add: nth_list_update)
    also have "\<dots> = 1"
      using assms by (simp add: sum.delta)
    finally show ?thesis .
  qed
  ultimately show ?thesis by (simp add: np_zeros_def)
qed

text \<open>
  In exact arithmetic the evolution is unitary: the \<open>'probabilities'\<close> that
  \<open>evolve_continuous_walk\<close> returns sum to \<open>1\<close> (\<open>expm_preserves_norm\<close> above is
  the same fact for an arbitrary initial state and any matrix \<open>M\<close> with
  \<open>M\<^sup>\<dagger> = -M\<close>, which \<open>-i\<cdot>H\<cdot>t\<close> is for every real symmetric \<open>H\<close>). This is a
  fact about the exact exponential; it gives no bound on the rounding error of the
  double-precision exponential that the code calls.
\<close>

lemma evolve_continuous_walk_unitary_exact:
  assumes "0 \<le> initial_node" "initial_node < int (number_of_nodes g)"
  shows "\<exists>r. evolve_continuous_walk g initial_node t gamma = Inr r
            \<and> sum_list (probabilities r) = 1"
proof -
  let ?n = "number_of_nodes g"
  from assms have pos: "0 < ?n" and k: "nat initial_node < ?n" by simp_all
  from pos obtain A where A: "adjacency_matrix g = Inr A"
    using adjacency_matrix_returns by blast
  then have len: "length A = ?n" by (rule length_adjacency_matrix)
  have idx: "np_index ?n initial_node = Inr (nat initial_node)"
    using assms by (simp add: np_index_def)
  let ?M = "map (map (\<lambda>a. - \<i> * of_real gamma * of_real a * of_real t)) A"
  let ?psi_0 = "(np_zeros ?n)[nat initial_node := (1::complex)]"
  have M_nth: "?M ! i ! j = - \<i> * of_real gamma * of_real (A ! i ! j) * of_real t"
    if "i < ?n" "j < ?n" for i j
    using that len adjacency_matrix_square [OF A, of i] by simp
  have skew: "\<forall>i<length ?M. \<forall>j<length ?M. cnj (?M ! i ! j) = - (?M ! j ! i)"
  proof (intro allI impI)
    fix i j assume "i < length ?M" "j < length ?M"
    then have i: "i < ?n" and j: "j < ?n" using len by simp_all
    show "cnj (?M ! i ! j) = - (?M ! j ! i)"
      by (simp only: M_nth [OF i j] M_nth [OF j i] adjacency_matrix_sym [OF A i j]) simp
  qed
  have "length ?psi_0 = length ?M"
    using len by (simp add: np_zeros_def)
  from expm_preserves_norm [OF skew this]
  have "sum_list (map (\<lambda>z. (cmod z)\<^sup>2) (mat_vec (expm ?M) ?psi_0)) = 1"
    using sum_list_basis_state [OF k] by simp
  then show ?thesis
    by (simp add: evolve_continuous_walk_def adjacency_hamiltonian_def A idx Let_def)
qed

section \<open>Rounding to double precision\<close>

lemma rne_error: "\<bar>of_int (rne x) - x\<bar> \<le> 1 / 2"
  unfolding rne_def Let_def by (auto; linarith)

lemma rne_eqI:
  assumes "\<bar>x - of_int m\<bar> < 1 / 2"
  shows "rne x = m"
proof -
  have "\<bar>of_int (rne x) - x\<bar> \<le> 1 / 2" by (rule rne_error)
  with assms have "\<bar>(of_int (rne x) :: real) - of_int m\<bar> < 1" by linarith
  then have "\<bar>rne x - m\<bar> < 1"
    by (metis of_int_diff of_int_abs of_int_less_1_iff)
  then show ?thesis by simp
qed

lemma rne_of_int: "rne (of_int k) = k"
  by (rule rne_eqI) simp

lemma fl_zero: "fl 0 = 0"
  by (simp add: fl_def rne_def)

lemma fl_eqI:
  assumes pos: "0 < x"
    and lo: "(2::real) powr of_int e \<le> x" and hi: "x < (2::real) powr (of_int e + 1)"
    and m: "\<bar>x / (2::real) powr (of_int e - 52) - of_int m\<bar> < 1 / 2"
  shows "fl x = of_int m * (2::real) powr (of_int e - 52)"
proof -
  have "\<lfloor>log 2 x\<rfloor> = e"
    using pos lo hi by (simp add: floor_log_eq_powr_iff)
  then have "\<lfloor>log 2 \<bar>x\<bar>\<rfloor> = e" using pos by simp
  then show ?thesis
    using rne_eqI [OF m] by (simp add: fl_def)
qed

lemma fl_error:
  assumes "0 < x"
  shows "\<bar>fl x - x\<bar> \<le> x / 2 ^ 53"
proof -
  define e where "e = \<lfloor>log 2 x\<rfloor>"
  define p where "p = (2::real) powr (of_int e - 52)"
  have p: "0 < p" by (simp add: p_def)
  have "(2::real) powr of_int e \<le> x"
    using assms floor_log_eq_powr_iff [of x 2 e] by (simp add: e_def)
  moreover have "(2::real) powr of_int e = p * 2 ^ 52"
    by (simp add: p_def powr_diff)
  ultimately have lo: "p * 2 ^ 52 \<le> x" by simp
  have fl_eq: "fl x = of_int (rne (x / p)) * p"
    using assms by (simp add: fl_def e_def p_def Let_def)
  have "fl x - x = (of_int (rne (x / p)) - x / p) * p"
    using p by (simp add: fl_eq field_simps)
  then have "\<bar>fl x - x\<bar> = \<bar>of_int (rne (x / p)) - x / p\<bar> * p"
    using p by (simp add: abs_mult)
  also have "\<dots> \<le> 1 / 2 * p"
    using p rne_error [of "x / p"] by (intro mult_right_mono) simp_all
  also have "\<dots> \<le> x / 2 ^ 53"
    using lo by simp
  finally show ?thesis .
qed


lemma fl_pos:
  assumes "0 < x"
  shows "0 < fl x"
proof -
  have "x / 2 ^ 53 < x" using assms by (simp add: field_simps)
  with fl_error [OF assms] show ?thesis by linarith
qed

lemma fl_representable:
  assumes "2 ^ 52 \<le> m" "m \<le> 2 ^ 53"
  shows "fl (of_int m * (2::real) powr (of_int e - 52)) = of_int m * 2 powr (of_int e - 52)"
proof (cases "m = 2 ^ 53")
  case False
  let ?p = "(2::real) powr (of_int e - 52)"
  have p: "0 < ?p" by simp
  from False assms have m: "m < 2 ^ 53" by simp
  have e: "(2::real) powr of_int e = 2 ^ 52 * ?p" "(2::real) powr (of_int e + 1) = 2 ^ 53 * ?p"
    by (simp_all add: powr_diff powr_add)
  have "(of_int (2 ^ 52) :: real) \<le> of_int m" "(of_int m :: real) < of_int (2 ^ 53)"
    using assms(1) m by (simp_all only: of_int_le_iff of_int_less_iff)
  then have mr: "(2::real) ^ 52 \<le> of_int m" "of_int m < (2::real) ^ 53"
    by simp_all
  show ?thesis
  proof (rule fl_eqI)
    show "0 < of_int m * ?p" using mr p by (intro mult_pos_pos) simp_all
    show "(2::real) powr of_int e \<le> of_int m * ?p"
      unfolding e using mr p by (intro mult_right_mono) simp_all
    show "of_int m * ?p < (2::real) powr (of_int e + 1)"
      unfolding e using mr p by (intro mult_strict_right_mono) simp_all
    show "\<bar>of_int m * ?p / ?p - of_int m\<bar> < 1 / 2" by simp
  qed
next
  case True
  let ?p = "(2::real) powr (of_int (e + 1) - 52)"
  have eq: "of_int m * (2::real) powr (of_int e - 52) = 2 ^ 52 * ?p"
    by (simp add: True powr_diff powr_add)
  have e: "(2::real) powr of_int (e + 1) = 2 ^ 52 * ?p" "(2::real) powr (of_int (e + 1) + 1) = 2 ^ 53 * ?p"
    by (simp_all add: powr_diff powr_add)
  have "fl (2 ^ 52 * ?p) = of_int (2 ^ 52) * ?p"
  proof (rule fl_eqI)
    show "0 < 2 ^ 52 * ?p" by simp
    show "(2::real) powr of_int (e + 1) \<le> 2 ^ 52 * ?p" unfolding e by simp
    show "2 ^ 52 * ?p < (2::real) powr (of_int (e + 1) + 1)" unfolding e by simp
    show "\<bar>2 ^ 52 * ?p / ?p - of_int (2 ^ 52)\<bar> < 1 / 2" by simp
  qed
  then show ?thesis by (simp add: eq)
qed

lemma fl_fl:
  assumes "0 < x"
  shows "fl (fl x) = fl x"
proof -
  define e where "e = \<lfloor>log 2 x\<rfloor>"
  define p where "p = (2::real) powr (of_int e - 52)"
  define m where "m = rne (x / p)"
  have p: "0 < p" by (simp add: p_def)
  have "(2::real) powr of_int e \<le> x" "x < (2::real) powr (of_int e + 1)"
    using assms floor_log_eq_powr_iff [of x 2 e] by (simp_all add: e_def)
  moreover have "(2::real) powr of_int e = p * 2 ^ 52" "(2::real) powr (of_int e + 1) = p * 2 ^ 53"
    by (simp_all add: p_def powr_diff powr_add)
  ultimately have y: "2 ^ 52 \<le> x / p" "x / p < 2 ^ 53"
    using p by (simp_all add: field_simps)
  have err: "\<bar>of_int m - x / p\<bar> \<le> 1 / 2"
    unfolding m_def by (rule rne_error)
  have "(2::real) ^ 52 - 1 < of_int m" using y err by linarith
  then have "(of_int (2 ^ 52 - 1) :: real) < of_int m" by simp
  then have "2 ^ 52 - 1 < m" by (rule of_int_less_iff [THEN iffD1])
  then have lo: "2 ^ 52 \<le> m" by simp
  have "of_int m < (2::real) ^ 53 + 1" using y err by linarith
  then have "(of_int m :: real) < of_int (2 ^ 53 + 1)" by simp
  then have "m < 2 ^ 53 + 1" by (rule of_int_less_iff [THEN iffD1])
  then have hi: "m \<le> 2 ^ 53" by simp
  have fl_eq: "fl x = of_int m * p"
    using assms by (simp add: fl_def e_def p_def m_def Let_def)
  show ?thesis
    unfolding fl_eq p_def by (rule fl_representable [OF lo hi])
qed

lemma fl_eqI':
  assumes pos: "0 < x"
    and lo: "(2::real) powr of_int e \<le> x" and hi: "x < (2::real) powr (of_int e + 1)"
    and m1: "of_int m - 1 / 2 < x * (2::real) powr (52 - of_int e)"
    and m2: "x * (2::real) powr (52 - of_int e) < of_int m + 1 / 2"
  shows "fl x = of_int m / (2::real) powr (52 - of_int e)"
proof -
  have eq: "(2::real) powr (of_int e - 52) = 1 / 2 powr (52 - of_int e)"
    by (simp add: powr_diff)
  have "fl x = of_int m * (2::real) powr (of_int e - 52)"
  proof (rule fl_eqI [OF pos lo hi])
    have "x / (2::real) powr (of_int e - 52) = x * 2 powr (52 - of_int e)"
      by (simp add: eq)
    then show "\<bar>x / (2::real) powr (of_int e - 52) - of_int m\<bar> < 1 / 2"
      using m1 m2 by linarith
  qed
  then show ?thesis by (simp add: eq)
qed

lemma fl_sqrt_2: "fl (sqrt 2) = 6369051672525773 / 2 ^ 52"
proof -
  have lo: "(6369051672525773 - 1 / 2) / 2 ^ 52 < sqrt 2"
    by (rule real_less_rsqrt) (simp add: power2_eq_square)
  have hi: "sqrt 2 < (6369051672525773 + 1 / 2) / 2 ^ 52"
    by (rule real_less_lsqrt) (simp_all add: power2_eq_square)
  have "fl (sqrt 2) = of_int 6369051672525773 / (2::real) powr (52 - of_int 0)"
  proof (rule fl_eqI')
    show "0 < sqrt 2" by simp
    show "(2::real) powr of_int 0 \<le> sqrt 2" by simp
    show "sqrt 2 < (2::real) powr (of_int 0 + 1)"
      by (simp add: real_less_lsqrt)
    show "of_int 6369051672525773 - 1 / 2 < sqrt 2 * (2::real) powr (52 - of_int 0)"
      using lo by (simp add: field_simps)
    show "sqrt 2 * (2::real) powr (52 - of_int 0) < of_int 6369051672525773 + 1 / 2"
      using hi by (simp add: field_simps)
  qed
  then show ?thesis by simp
qed

lemma fl_inverse_sqrt_2: "fl (1 / (6369051672525773 / 2 ^ 52)) = 6369051672525772 / 2 ^ 53"
proof -
  let ?x = "1 / (6369051672525773 / 2 ^ 52) :: real"
  have "fl ?x = of_int 6369051672525772 / (2::real) powr (52 - of_int (- 1))"
  proof (rule fl_eqI')
    show "0 < ?x" by simp
    show "(2::real) powr of_int (- 1) \<le> ?x" by (simp add: powr_minus field_simps)
    show "?x < (2::real) powr (of_int (- 1) + 1)" by simp
    show "of_int 6369051672525772 - 1 / 2 < ?x * (2::real) powr (52 - of_int (- 1))"
      by (simp add: field_simps)
    show "?x * (2::real) powr (52 - of_int (- 1)) < of_int 6369051672525772 + 1 / 2"
      by (simp add: field_simps)
  qed
  then show ?thesis by simp
qed

lemma fl_half_square:
  "fl ((6369051672525772 / 2 ^ 53) * (6369051672525772 / 2 ^ 53)) = 4503599627370495 / 9007199254740992"
proof -
  let ?x = "(6369051672525772 / 2 ^ 53) * (6369051672525772 / 2 ^ 53) :: real"
  have "fl ?x = of_int 9007199254740990 / (2::real) powr (52 - of_int (- 2))"
  proof (rule fl_eqI')
    show "0 < ?x" by simp
    show "(2::real) powr of_int (- 2) \<le> ?x" by (simp add: powr_minus field_simps)
    show "?x < (2::real) powr (of_int (- 2) + 1)" by (simp add: powr_minus field_simps)
    show "of_int 9007199254740990 - 1 / 2 < ?x * (2::real) powr (52 - of_int (- 2))"
      by (simp add: field_simps)
    show "?x * (2::real) powr (52 - of_int (- 2)) < of_int 9007199254740990 + 1 / 2"
      by (simp add: field_simps)
  qed
  then show ?thesis by simp
qed

section \<open>The first sample of the search in double precision\<close>

lemma cmul_double_zero: "cmul_double 0 z = 0"
  by (simp add: cmul_double_def fl_zero complex_eq_iff)

lemma cmul_double_one:
  assumes "fl x = x"
  shows "cmul_double 1 (Complex x 0) = Complex x 0"
  using assms by (simp add: cmul_double_def fl_zero)

lemma cadd_double_zero_right:
  assumes "fl x = x"
  shows "cadd_double (Complex x 0) 0 = Complex x 0"
  using assms by (simp add: cadd_double_def fl_zero)

lemma cadd_double_zero_left:
  assumes "fl x = x"
  shows "cadd_double 0 (Complex x 0) = Complex x 0"
  using assms by (simp add: cadd_double_def fl_zero)

lemma cadd_double_zero_zero: "cadd_double 0 0 = 0"
  by (simp add: cadd_double_def fl_zero complex_eq_iff)

lemma identity_row_fold:
  assumes x: "fl x = x" and ks: "distinct ks" "\<forall>k\<in>set ks. k < n" and w: "w < n"
  shows "foldl (\<lambda>acc k. cadd_double acc
                  (cmul_double (identity n ! w ! k) (replicate n (Complex x 0) ! k))) 0 ks
         = (if w \<in> set ks then Complex x 0 else 0)"
  using ks
proof (induction ks rule: rev_induct)
  case Nil
  show ?case by simp
next
  case (snoc k ks)
  then have k: "k < n" "k \<notin> set ks" and ih:
    "foldl (\<lambda>acc k. cadd_double acc
                  (cmul_double (identity n ! w ! k) (replicate n (Complex x 0) ! k))) 0 ks
         = (if w \<in> set ks then Complex x 0 else 0)"
    by simp_all
  show ?case
  proof (cases "k = w")
    case True
    with k have "w \<notin> set ks" by simp
    with True k w x show ?thesis
      by (simp add: ih identity_nth cmul_double_one cadd_double_zero_left)
  next
    case False
    with k w x show ?thesis
      by (simp add: ih identity_nth cmul_double_zero cadd_double_zero_right cadd_double_zero_zero)
  qed
qed

lemma mat_vec_double_identity:
  assumes "fl x = x" "w < n"
  shows "mat_vec_double (identity n) (replicate n (Complex x 0)) ! w = Complex x 0"
proof -
  have "foldl (\<lambda>acc k. cadd_double acc
                  (cmul_double (identity n ! w ! k) (replicate n (Complex x 0) ! k))) 0 [0..<n]
         = (if w \<in> set [0..<n] then Complex x 0 else 0)"
    by (rule identity_row_fold [OF assms(1) _ _ assms(2)]) simp_all
  then show ?thesis
    using assms(2) by (simp add: mat_vec_double_def length_identity)
qed

lemma abs_double_real:
  assumes "fl x = x" "0 < x"
  shows "abs_double (Complex x 0) = x"
  using assms by (simp add: abs_double_def)

lemma linspace_double_from_zero:
  assumes "1 \<le> num"
  shows "\<exists>ts. linspace_double 0 T num = Inr ts \<and> length ts = nat num \<and> ts ! 0 = 0"
proof (cases "1 < nat num")
  case True
  then show ?thesis by (simp add: linspace_double_def Let_def fl_zero)
next
  case False
  with assms have "nat num = 1" by simp
  then show ?thesis using assms by (simp add: linspace_double_def Let_def fl_zero)
qed

lemma build_search_hamiltonian_double_returns:
  assumes "0 \<le> w" "w < int (number_of_nodes g)"
  shows "\<exists>Hm. build_search_hamiltonian_double g w gamma = Inr Hm
            \<and> length Hm = number_of_nodes g
            \<and> (\<forall>i<number_of_nodes g. length (Hm ! i) = number_of_nodes g)"
proof -
  let ?n = "number_of_nodes g"
  from assms have pos: "0 < ?n" by simp
  then obtain A where A: "adjacency_matrix g = Inr A"
    using adjacency_matrix_returns by blast
  have len: "length A = ?n"
    using A by (rule length_adjacency_matrix)
  have rows: "length (A ! i) = ?n" if "i < ?n" for i
    using adjacency_matrix_square [OF A] len that by simp
  have idx: "np_index ?n w = Inr (nat w)"
    using assms by (simp add: np_index_def)
  have orows: "length (set_entry (np_zeros2 ?n ?n) (nat w) (nat w) (1::real) ! i) = ?n"
    if "i < ?n" for i
    using that by (cases "i = nat w") (simp_all add: set_entry_def np_zeros2_def)
  show ?thesis
    using len rows orows
    by (simp add: build_search_hamiltonian_double_def A idx Let_def set_entry_def np_zeros2_def)
qed

lemma zero_time_exponent:
  assumes "length Hm = n" "\<forall>i<n. length (Hm ! i) = n"
  shows "map (map (\<lambda>h. Complex 0 (fl (- h * 0)))) Hm = np_zeros2 n n"
  using assms by (auto simp add: list_eq_iff_nth_eq np_zeros2_def fl_zero complex_eq_iff)

lemma success_probability_double_zero_time:
  assumes E: "E (np_zeros2 n n) = identity n"
    and Hm: "length Hm = n" "\<forall>i<n. length (Hm ! i) = n"
    and x: "fl x = x" "0 < x" and w: "w < n"
  shows "success_probability_double E Hm (replicate n (Complex x 0)) w 0 = fl (x * x)"
  using zero_time_exponent [OF Hm] E mat_vec_double_identity [OF x(1) w] abs_double_real [OF x]
  by (simp add: success_probability_double_def Let_def)

lemma double_sample_lower_bound:
  assumes "0 < n"
  shows "(1 - 1 / 2 ^ 50) / real n
           \<le> fl (fl (1 / fl (sqrt (fl (real n)))) * fl (1 / fl (sqrt (fl (real n)))))"
proof -
  define u :: real where "u = 1 / 2 ^ 53"
  define n0 where "n0 = fl (real n)"
  define a where "a = fl (sqrt n0)"
  define x where "x = fl (1 / a)"
  have u: "0 < u" "u < 1" by (simp_all add: u_def)
  have err: "\<bar>fl y - y\<bar> \<le> y * u" if "0 < y" for y
    using fl_error [OF that] by (simp add: u_def)
  from assms have n: "0 < real n" by simp
  have n0: "0 < n0" "n0 \<le> real n * (1 + u)"
    using fl_pos [OF n] err [OF n] by (simp_all add: n0_def algebra_simps)
  then have s: "0 < sqrt n0" by simp
  have a: "0 < a" "a \<le> sqrt n0 * (1 + u)"
    using fl_pos [OF s] err [OF s] by (simp_all add: a_def algebra_simps)
  have "a\<^sup>2 \<le> (sqrt n0 * (1 + u))\<^sup>2"
    using a by (intro power_mono) simp_all
  also have "\<dots> = n0 * (1 + u)\<^sup>2"
    using n0 by (simp add: power_mult_distrib)
  also have "\<dots> \<le> (real n * (1 + u)) * (1 + u)\<^sup>2"
    using n0 by (intro mult_right_mono) simp_all
  finally have a2: "a\<^sup>2 \<le> real n * (1 + u) ^ 3"
    by (simp add: power3_eq_cube power2_eq_square mult.assoc)
  have ia: "0 < 1 / a" using a by simp
  have "(1 - u) / a = 1 / a - 1 / a * u"
    by (simp add: diff_divide_distrib)
  then have x: "0 < x" "(1 - u) / a \<le> x"
    using fl_pos [OF ia] err [OF ia] unfolding x_def by linarith+
  have "((1 - u) / a)\<^sup>2 \<le> x\<^sup>2"
    using x u a by (intro power_mono) simp_all
  then have x2: "(1 - u)\<^sup>2 / a\<^sup>2 \<le> x * x"
    by (simp add: power_divide power2_eq_square)
  have xx: "0 < x * x" using x by simp
  have "(1 - u) * (x * x) \<le> fl (x * x)"
    using err [OF xx] by (simp add: algebra_simps)
  moreover have "(1 - u) * ((1 - u)\<^sup>2 / a\<^sup>2) \<le> (1 - u) * (x * x)"
    using x2 u by (intro mult_left_mono) simp_all
  ultimately have c: "(1 - u) ^ 3 / a\<^sup>2 \<le> fl (x * x)"
    by (simp add: power3_eq_cube power2_eq_square)
  have "0 < real n * (1 + u) ^ 3 * a\<^sup>2"
    using n a u by (intro mult_pos_pos zero_less_power) simp_all
  then have "(1 - u) ^ 3 / (real n * (1 + u) ^ 3) \<le> (1 - u) ^ 3 / a\<^sup>2"
    using a2 u by (intro divide_left_mono) simp_all
  moreover have "(1 - 1 / 2 ^ 50) / real n \<le> (1 - u) ^ 3 / (real n * (1 + u) ^ 3)"
  proof -
    have "(1 - 1 / 2 ^ 50) * (1 + u) ^ 3 \<le> (1 - u) ^ 3"
      by (simp add: u_def power3_eq_cube)
    then have "(1 - 1 / 2 ^ 50) \<le> (1 - u) ^ 3 / (1 + u) ^ 3"
      using u by (simp add: pos_le_divide_eq)
    then have "(1 - 1 / 2 ^ 50) / real n \<le> (1 - u) ^ 3 / (1 + u) ^ 3 / real n"
      using n by (intro divide_right_mono) simp_all
    then show ?thesis by (simp add: mult.commute)
  qed
  ultimately show ?thesis
    using c by (simp add: x_def a_def n0_def)
qed

lemma double_amplitude:
  assumes "0 < n"
  shows "fl (fl (1 / fl (sqrt (fl (real n))))) = fl (1 / fl (sqrt (fl (real n))))"
    and "0 < fl (1 / fl (sqrt (fl (real n))))"
proof -
  from assms have "0 < fl (real n)" by (intro fl_pos) simp
  then have "0 < fl (sqrt (fl (real n)))" by (intro fl_pos) simp
  then have pos: "0 < 1 / fl (sqrt (fl (real n)))" by simp
  show "fl (fl (1 / fl (sqrt (fl (real n))))) = fl (1 / fl (sqrt (fl (real n))))"
    by (rule fl_fl [OF pos])
  show "0 < fl (1 / fl (sqrt (fl (real n))))"
    by (rule fl_pos [OF pos])
qed

lemma search_continuous_walk_double_returns:
  assumes "0 \<le> marked_vertex" "marked_vertex < int (number_of_nodes g)" "1 \<le> n_time_steps"
    and E: "E (np_zeros2 (number_of_nodes g) (number_of_nodes g)) = identity (number_of_nodes g)"
  shows "\<exists>ts probs j.
           length ts = nat n_time_steps \<and> length probs = nat n_time_steps
         \<and> ts ! 0 = 0
         \<and> probs ! 0 = fl (fl (1 / fl (sqrt (fl (real (number_of_nodes g)))))
                          * fl (1 / fl (sqrt (fl (real (number_of_nodes g))))))
         \<and> j < length probs \<and> (\<forall>i<length probs. probs ! i \<le> probs ! j)
         \<and> search_continuous_walk_double E g marked_vertex gamma time n_time_steps =
             Inr \<lparr>optimal_time = ts ! j, max_probability = probs ! j,
                  search_times = ts, success_probs = probs\<rparr>"
proof -
  let ?n = "number_of_nodes g"
  let ?x = "fl (1 / fl (sqrt (fl (real ?n))))"
  let ?gamma = "case gamma of None \<Rightarrow> fl (1 / fl (real ?n)) | Some c \<Rightarrow> c"
  let ?time = "case time of None \<Rightarrow> fl (fl (fl pi / 2) * fl (sqrt (fl (real ?n)))) | Some T \<Rightarrow> T"
  from assms have pos: "0 < ?n" and w: "nat marked_vertex < ?n" by simp_all
  have g_ok: "(case gamma of None \<Rightarrow> if ?n = 0 then Inl ZeroDivisionError
                                     else Inr (fl (1 / fl (real ?n)))
                | Some c \<Rightarrow> Inr c) = Inr ?gamma"
    using pos by (simp split: option.splits)
  from linspace_double_from_zero [OF assms(3)] obtain ts where
    ts: "linspace_double 0 ?time n_time_steps = Inr ts" "length ts = nat n_time_steps" "ts ! 0 = 0"
    by blast
  from build_search_hamiltonian_double_returns [OF assms(1,2)] obtain Hm where
    Hm: "build_search_hamiltonian_double g marked_vertex ?gamma = Inr Hm"
    and sq: "length Hm = ?n" "\<forall>i<?n. length (Hm ! i) = ?n"
    by blast
  have idx: "np_index ?n marked_vertex = Inr (nat marked_vertex)"
    using assms by (simp add: np_index_def)
  let ?psi = "uniform_superposition_double ?n"
  let ?probs = "map (success_probability_double E Hm ?psi (nat marked_vertex)) ts"
  have nonempty: "0 < length ts"
    using ts(2) assms(3) by simp
  then have "?probs \<noteq> []" by auto
  from np_argmax_greatest [OF this] obtain j where
    j: "np_argmax ?probs = Inr j" "j < length ?probs" "\<forall>i<length ?probs. ?probs ! i \<le> ?probs ! j"
    by blast
  have "success_probability_double E Hm ?psi (nat marked_vertex) 0 = fl (?x * ?x)"
    unfolding uniform_superposition_double_def
    by (rule success_probability_double_zero_time
          [where E = E, OF E sq double_amplitude [OF pos] w])
  then have first: "?probs ! 0 = fl (?x * ?x)"
    using nonempty ts(3) by simp
  have res: "search_continuous_walk_double E g marked_vertex gamma time n_time_steps =
             Inr \<lparr>optimal_time = ts ! j, max_probability = ?probs ! j,
                  search_times = ts, success_probs = ?probs\<rparr>"
    by (simp add: search_continuous_walk_double_def Let_def g_ok ts(1) Hm idx j(1))
  show ?thesis
    using ts(2,3) first j(2,3) res
    by (intro exI [of _ ts] exI [of _ ?probs] exI [of _ j]) simp
qed

text \<open>
  Claim C10, amended. For every graph on \<open>N \<ge> 1\<close> nodes, every marked vertex of the
  graph and at least one sampled time, \<open>search_continuous_walk\<close>, computing in
  doubles with an exponential that returns the identity for the zero matrix, returns a
  \<open>'max_probability'\<close> that is at least the first sample; that sample is taken at
  time \<open>0\<close> and is the double-precision value of \<open>(1/sqrt(N))**2\<close>, which is
  \<open>1/N\<close> up to rounding only, so \<open>'max_probability'\<close> is at least
  \<open>(1 - 2\<^sup>-\<^sup>5\<^sup>0)/N\<close>.
\<close>

theorem search_continuous_walk_double_lower_bound:
  assumes "0 \<le> marked_vertex" "marked_vertex < int (number_of_nodes g)" "1 \<le> n_time_steps"
    and "E (np_zeros2 (number_of_nodes g) (number_of_nodes g)) = identity (number_of_nodes g)"
  shows "\<exists>r. search_continuous_walk_double E g marked_vertex gamma time n_time_steps = Inr r
            \<and> search_times r ! 0 = 0
            \<and> success_probs r ! 0 = fl (fl (1 / fl (sqrt (fl (real (number_of_nodes g)))))
                                       * fl (1 / fl (sqrt (fl (real (number_of_nodes g))))))
            \<and> success_probs r ! 0 \<le> max_probability r
            \<and> (1 - 1 / 2 ^ 50) / real (number_of_nodes g) \<le> max_probability r"
proof -
  let ?n = "number_of_nodes g"
  let ?c = "fl (fl (1 / fl (sqrt (fl (real ?n)))) * fl (1 / fl (sqrt (fl (real ?n)))))"
  from search_continuous_walk_double_returns
         [where E = E and gamma = gamma and time = time, OF assms]
  obtain ts probs j where
    len: "length probs = nat n_time_steps" and first: "ts ! 0 = 0" "probs ! 0 = ?c"
    and greatest: "\<forall>i<length probs. probs ! i \<le> probs ! j"
    and res: "search_continuous_walk_double E g marked_vertex gamma time n_time_steps =
             Inr \<lparr>optimal_time = ts ! j, max_probability = probs ! j,
                  search_times = ts, success_probs = probs\<rparr>"
    by blast
  from assms(1,2) have pos: "0 < ?n" by simp
  from assms(3) len have "0 < length probs" by simp
  with greatest have le: "probs ! 0 \<le> probs ! j" by blast
  from double_sample_lower_bound [OF pos] first(2) le
  have bound: "(1 - 1 / 2 ^ 50) / real ?n \<le> probs ! j" by linarith
  show ?thesis
    using res first le bound by simp
qed

lemma fl_two: "fl 2 = 2"
proof -
  have "fl 2 = of_int 4503599627370496 / (2::real) powr (52 - of_int 1)"
    by (rule fl_eqI') simp_all
  then show ?thesis by simp
qed

lemma double_sample_K2:
  "fl (fl (1 / fl (sqrt (fl (real (number_of_nodes K2)))))
       * fl (1 / fl (sqrt (fl (real (number_of_nodes K2))))))
     = 4503599627370495 / 9007199254740992"
proof -
  have "fl (sqrt (fl (real (number_of_nodes K2)))) = 6369051672525773 / 2 ^ 52"
    by (simp only: number_of_nodes_K2 of_nat_numeral fl_two fl_sqrt_2)
  then show ?thesis
    by (simp only: fl_inverse_sqrt_2 fl_half_square)
qed

lemma expm_zero_K2:
  "expm (np_zeros2 (number_of_nodes K2) (number_of_nodes K2)) = identity (number_of_nodes K2)"
proof -
  have "expm (np_zeros2 2 2) = identity (length (np_zeros2 2 2 :: complex list list))"
    by (rule expm_zero_matrix) (simp add: np_zeros2_def numeral_2_eq_2 less_Suc_eq)
  then show ?thesis
    by (simp add: number_of_nodes_K2 np_zeros2_def)
qed

text \<open>
  Claim C10, as stated, fails in double precision. On the complete graph on two nodes
  with marked vertex \<open>0\<close>, the default \<open>gamma\<close> and \<open>time\<close> and a single sample,
  the sample is taken at time \<open>0\<close>, where the exponential is applied to the zero
  matrix and is the identity, and \<open>'max_probability'\<close> is the double
  \<open>(1/sqrt(2))**2 = 4503599627370495 / 2\<^sup>5\<^sup>3 = 0.4999999999999999\<close>, below
  \<open>1/N = 1/2\<close>.
\<close>

theorem search_continuous_walk_double_below_half:
  "search_continuous_walk_double expm K2 0 None None 1 =
     Inr \<lparr>optimal_time = 0,
          max_probability = 4503599627370495 / 9007199254740992,
          search_times = [0],
          success_probs = [4503599627370495 / 9007199254740992]\<rparr>
   \<and> (4503599627370495 / 9007199254740992 :: real) < 1 / real (number_of_nodes K2)"
proof -
  have h1: "(0::int) \<le> 0" by simp
  have h2: "0 < int (number_of_nodes K2)" by (simp add: number_of_nodes_K2)
  have h3: "(1::int) \<le> 1" by simp
  from search_continuous_walk_double_returns
         [where E = expm and gamma = None and time = None, OF h1 h2 h3 expm_zero_K2]
  obtain ts probs j where
    len: "length ts = nat 1" "length probs = nat 1" and first: "ts ! 0 = 0"
    "probs ! 0 = 4503599627370495 / 9007199254740992" and j: "j < length probs"
    and res: "search_continuous_walk_double expm K2 0 None None 1 =
             Inr \<lparr>optimal_time = ts ! j, max_probability = probs ! j,
                  search_times = ts, success_probs = probs\<rparr>"
    unfolding double_sample_K2 by blast
  from len j have j0: "j = 0" by simp
  from len first have "ts = [0]" "probs = [4503599627370495 / 9007199254740992]"
    by (simp_all add: list_eq_iff_nth_eq)
  with res j0 show ?thesis
    by (simp add: number_of_nodes_K2)
qed

theorem search_continuous_walk_double_lower_bound_witness:
  "(0::int) \<le> 0 \<and> 0 < int (number_of_nodes K2) \<and> (1::int) \<le> 200
   \<and> expm (np_zeros2 (number_of_nodes K2) (number_of_nodes K2)) = identity (number_of_nodes K2)
   \<and> (\<exists>r. search_continuous_walk_double expm K2 0 None None 200 = Inr r
          \<and> (1 - 1 / 2 ^ 50) / 2 \<le> max_probability r)"
proof -
  have h1: "(0::int) \<le> 0" by simp
  have h2: "0 < int (number_of_nodes K2)" by (simp add: number_of_nodes_K2)
  have h3: "(1::int) \<le> 200" by simp
  from search_continuous_walk_double_lower_bound
         [where E = expm and gamma = None and time = None, OF h1 h2 h3 expm_zero_K2]
  obtain r where "search_continuous_walk_double expm K2 0 None None 200 = Inr r"
    and "(1 - 1 / 2 ^ 50) / real (number_of_nodes K2) \<le> max_probability r"
    by blast
  then have "\<exists>r. search_continuous_walk_double expm K2 0 None None 200 = Inr r
          \<and> (1 - 1 / 2 ^ 50) / 2 \<le> max_probability r"
    by (intro exI [of _ r]) (simp add: number_of_nodes_K2)
  with h1 h2 h3 expm_zero_K2 show ?thesis by (intro conjI)
qed

end
